theory Spec2Isabelle
  imports Main "HOL-Library.Word" "HOL-Library.Code_Target_Nat"
begin

unbundle bit_operations_syntax

section \<open>Data model of the FAT layer (src/common/fat32\_base.c)\<close>

type_synonym u8 = "8 word"
type_synonym u16 = "16 word"
type_synonym u32 = "32 word"

text \<open>
  \<open>ASSERT\<close> and \<open>NOT_REACHED\<close> stop the kernel; a division whose divisor is zero traps.
  Each of them is a value of the model. So is a store past the end of the long-name
  buffer of the walk context, which the code does not check for: from such a store on the C
  program has no defined behaviour, and the model stops there with \<open>BufferOverrun\<close>.
\<close>

datatype panic = AssertFailed | NotReached | DivideByZero | BufferOverrun

datatype fat_type = fat12_type | fat16_type | fat32_type | fat_unknown

text \<open>
  \<open>struct fat_header\<close>, followed in memory by \<open>fat32_header2\<close> (read through
  \<open>(fat32_header2 *)(hdr + 1)\<close>): the fields the code reads.
\<close>

record fat_header =
  BPB_BytsPerSec :: u16
  BPB_SecPerClus :: u8
  BPB_RsvdSecCnt :: u16
  BPB_NumFATs :: u8
  BPB_RootEntCnt :: u16
  BPB_TotSec16 :: u16
  BPB_FATSz16 :: u16
  BPB_TotSec32 :: u32
  BPB_FATSz32 :: u32
  BPB_RootClus :: u32

text \<open>
  A 32-byte directory slot. The code reads the same slot through \<open>fat_entry\<close> and, after a
  cast, through \<open>fat_long_entry\<close>; the record carries the fields of both views. The
  attribute byte is a bitfield in the source (\<open>entry->volume_id\<close>, \<open>entry->directory\<close>).
\<close>

record fat_entry =
  DIR_Name :: "u8 list"
  readonly :: bool
  hidden :: bool
  system :: bool
  volume_id :: bool
  directory :: bool
  archive :: bool
  DIR_NTRes :: u8
  DIR_FstClusHI :: u16
  DIR_FstClusLO :: u16
  DIR_FileSize :: u32
  LDIR_Name1 :: "u8 list"
  LDIR_Chksum :: u8
  LDIR_Name2 :: "u8 list"
  LDIR_Name3 :: "u8 list"

text \<open>
  The mapped volume: the header at offset 0, the bytes of the image, and the directory slot
  seen at a byte offset (\<open>*(fat_entry *)((u8 *)hdr + a)\<close>). A pointer into the image is its
  byte offset from \<open>hdr\<close>; \<open>NULL\<close> is \<open>None\<close>.
\<close>

record fat_volume =
  hdr :: fat_header
  mem :: "nat \<Rightarrow> u8"
  slot_at :: "nat \<Rightarrow> fat_entry"

section \<open>Short-name checksum\<close>

text \<open>
  \<open>sum = (u8)(((sum & 1u) ? 0x80u : 0u) + (sum >> 1u) + *shortname++)\<close>; the cast to
  \<open>u8\<close> keeps the low eight bits, which is addition on \<open>8 word\<close>.
\<close>

definition checksum_step :: "u8 \<Rightarrow> u8 \<Rightarrow> u8" where
  "checksum_step s b = (if s AND 1 \<noteq> 0 then 0x80 else 0) + drop_bit 1 s + b"

fun checksum_loop :: "nat \<Rightarrow> nat \<Rightarrow> u8 list \<Rightarrow> u8 \<Rightarrow> u8" where
  "checksum_loop 0 i shortname s = s"
| "checksum_loop (Suc n) i shortname s =
     checksum_loop n (Suc i) shortname (checksum_step s (shortname ! i))"

definition shortname_checksum :: "u8 list \<Rightarrow> u8" where
  "shortname_checksum shortname = checksum_loop 11 0 shortname 0"

text \<open>The claim's words: an 8-bit rotation to the right of the running sum, plus the byte.\<close>

definition rotate_right_u8 :: "u8 \<Rightarrow> u8" where
  "rotate_right_u8 s = word_rotr 1 s"

definition checksum_spec :: "u8 list \<Rightarrow> u8" where
  "checksum_spec name = foldl (\<lambda>s b. rotate_right_u8 s + b) 0 name"

section \<open>Filename character whitelist\<close>

text \<open>
  The table \<open>fat32_valid_chars[256]\<close>, written by runs of equal entries: indices 0..34 are 0,
  35..41 are 1, 42 is 0, 43..46 are 1, 47 is 0, 48..57 are 1, 58 is 0, 59 is 1, 60 is 0, 61 is 1,
  62 and 63 are 0, 64..91 are 1, 92 is 0, 93..123 are 1, 124 is 0, 125 and 126 are 1,
  127..255 are 0.
\<close>

definition fat32_valid_chars :: "bool list" where
  "fat32_valid_chars =
     replicate 35 False @ replicate 7 True @ [False] @ replicate 4 True @ [False] @
     replicate 10 True @ [False, True, False, True, False, False] @ replicate 28 True @
     [False] @ replicate 31 True @ [False, True, True] @ replicate 129 False"

definition fat32_is_valid_filename_character :: "u8 \<Rightarrow> bool" where
  "fat32_is_valid_filename_character c = fat32_valid_chars ! unat c"

section \<open>Volume geometry\<close>

text \<open>
  Modelled from the spec: \<open>fat_get_FATSz\<close>, \<open>fat_get_TotSec\<close> and
  \<open>fat_get_RootDirSectors\<close> are inline functions of the header file fat32\_base.h, which is
  not among the sources. The spec gives: the FAT size is \<open>BPB_FATSz16\<close> when nonzero,
  otherwise \<open>BPB_FATSz32\<close>; the total sector count is the 16- or the 32-bit variant;
  the root directory takes \<open>ceil(root_ent_cnt * 32 / bytes_per_sector)\<close> sectors. The
  first of these is repeated in \<open>fat_get_first_data_sector\<close> of the source.
\<close>

definition fat_get_FATSz :: "fat_header \<Rightarrow> u32" where
  "fat_get_FATSz h =
     (if BPB_FATSz16 h \<noteq> 0 then ucast (BPB_FATSz16 h) else BPB_FATSz32 h)"

definition fat_get_TotSec :: "fat_header \<Rightarrow> u32" where
  "fat_get_TotSec h =
     (if BPB_TotSec16 h \<noteq> 0 then ucast (BPB_TotSec16 h) else BPB_TotSec32 h)"

definition fat_get_RootDirSectors :: "fat_header \<Rightarrow> panic + u32" where
  "fat_get_RootDirSectors h =
     (if BPB_BytsPerSec h = 0 then Inl DivideByZero
      else Inr ((ucast (BPB_RootEntCnt h) * 32 + (ucast (BPB_BytsPerSec h) - 1))
                div ucast (BPB_BytsPerSec h)))"

text \<open>\<open>fat_get_type\<close>: all arithmetic is on \<open>u32\<close> and wraps.\<close>

definition CountofClusters :: "fat_header \<Rightarrow> u32 \<Rightarrow> u32" where
  "CountofClusters h RootDirSectors =
     (let FATSz = fat_get_FATSz h;
          TotSec = fat_get_TotSec h;
          FatAreaSize = ucast (BPB_NumFATs h) * FATSz;
          DataSec = TotSec - (ucast (BPB_RsvdSecCnt h) + FatAreaSize + RootDirSectors)
      in DataSec div ucast (BPB_SecPerClus h))"

definition fat_get_type :: "fat_header \<Rightarrow> panic + fat_type" where
  "fat_get_type h =
     (case fat_get_RootDirSectors h of
        Inl p \<Rightarrow> Inl p
      | Inr RootDirSectors \<Rightarrow>
          if BPB_SecPerClus h = 0 then Inl DivideByZero
          else if CountofClusters h RootDirSectors < 4085 then Inr fat12_type
          else if CountofClusters h RootDirSectors < 65525 then Inr fat16_type
          else Inr fat32_type)"

section \<open>FAT entries\<close>

text \<open>Little-endian loads from the image, as the casts \<open>*(u16 *)\<close> and \<open>*(u32 *)\<close> do on x86.\<close>

definition read_u16 :: "(nat \<Rightarrow> u8) \<Rightarrow> nat \<Rightarrow> u16" where
  "read_u16 m a = ucast (m a) OR push_bit 8 (ucast (m (a + 1)))"

definition read_u32 :: "(nat \<Rightarrow> u8) \<Rightarrow> nat \<Rightarrow> u32" where
  "read_u32 m a =
     ucast (m a) OR push_bit 8 (ucast (m (a + 1))) OR
     push_bit 16 (ucast (m (a + 2))) OR push_bit 24 (ucast (m (a + 3)))"

text \<open>
  \<open>fat_read_fat_entry\<close>. \<open>FATOffset\<close>, \<open>ThisFATSecNum\<close> and \<open>ThisFATEntOffset\<close> are
  \<open>u32\<close>; \<open>SecBuf\<close> is the byte offset \<open>ThisFATSecNum * BPB_BytsPerSec\<close> from \<open>hdr\<close>.
\<close>

definition FATOffset :: "fat_type \<Rightarrow> u32 \<Rightarrow> u32" where
  "FATOffset ft clusterN = (if ft = fat16_type then clusterN * 2 else clusterN * 4)"

definition ThisFATSecNum :: "fat_header \<Rightarrow> fat_type \<Rightarrow> u32 \<Rightarrow> u32 \<Rightarrow> u32" where
  "ThisFATSecNum h ft clusterN fatNum =
     fatNum * fat_get_FATSz h + ucast (BPB_RsvdSecCnt h) +
     FATOffset ft clusterN div ucast (BPB_BytsPerSec h)"

definition ThisFATEntOffset :: "fat_header \<Rightarrow> fat_type \<Rightarrow> u32 \<Rightarrow> u32" where
  "ThisFATEntOffset h ft clusterN = FATOffset ft clusterN mod ucast (BPB_BytsPerSec h)"

definition fat_entry_address :: "fat_header \<Rightarrow> fat_type \<Rightarrow> u32 \<Rightarrow> u32 \<Rightarrow> nat" where
  "fat_entry_address h ft clusterN fatNum =
     unat (ThisFATSecNum h ft clusterN fatNum * ucast (BPB_BytsPerSec h)) +
     unat (ThisFATEntOffset h ft clusterN)"

definition fat_read_fat_entry :: "fat_volume \<Rightarrow> fat_type \<Rightarrow> u32 \<Rightarrow> u32 \<Rightarrow> panic + u32" where
  "fat_read_fat_entry v ft0 clusterN fatNum =
     (case (if ft0 = fat_unknown then fat_get_type (hdr v) else Inr ft0) of
        Inl p \<Rightarrow> Inl p
      | Inr ft \<Rightarrow>
          if ft = fat12_type then Inl NotReached
          else if \<not> fatNum < ucast (BPB_NumFATs (hdr v)) then Inl AssertFailed
          else if BPB_BytsPerSec (hdr v) = 0 then Inl DivideByZero
          else if ft = fat16_type
            then Inr (ucast (read_u16 (mem v) (fat_entry_address (hdr v) ft clusterN fatNum)))
            else Inr (read_u32 (mem v) (fat_entry_address (hdr v) ft clusterN fatNum)
                      AND 0x0FFFFFFF))"

text \<open>
  Modelled from the spec: \<open>fat_is_end_of_clusterchain\<close> and \<open>fat_is_bad_cluster\<close> are inline
  functions of the absent header. FAT16: end of chain iff the value is at least \<open>0xFFF8\<close>,
  bad iff it is \<open>0xFFF7\<close>; FAT32: end of chain iff the value masked with \<open>0x0FFFFFFF\<close> is
  at least \<open>0x0FFFFFF8\<close>, bad iff the masked value is \<open>0x0FFFFFF7\<close>.
\<close>

definition fat_is_end_of_clusterchain :: "fat_type \<Rightarrow> u32 \<Rightarrow> bool" where
  "fat_is_end_of_clusterchain ft val =
     (if ft = fat16_type then val \<ge> 0xFFF8 else (val AND 0x0FFFFFFF) \<ge> 0x0FFFFFF8)"

definition fat_is_bad_cluster :: "fat_type \<Rightarrow> u32 \<Rightarrow> bool" where
  "fat_is_bad_cluster ft val =
     (if ft = fat16_type then val = 0xFFF7 else (val AND 0x0FFFFFFF) = 0x0FFFFFF7)"

section \<open>Cluster addressing\<close>

definition fat_get_first_data_sector :: "fat_header \<Rightarrow> panic + u32" where
  "fat_get_first_data_sector h =
     (case fat_get_RootDirSectors h of
        Inl p \<Rightarrow> Inl p
      | Inr RootDirSectors \<Rightarrow>
          let FATSz = (if BPB_FATSz16 h \<noteq> 0 then ucast (BPB_FATSz16 h) else BPB_FATSz32 h)
          in Inr (ucast (BPB_RsvdSecCnt h) + ucast (BPB_NumFATs h) * FATSz + RootDirSectors))"

definition fat_get_sector_for_cluster :: "fat_header \<Rightarrow> u32 \<Rightarrow> panic + u32" where
  "fat_get_sector_for_cluster h N =
     (case fat_get_first_data_sector h of
        Inl p \<Rightarrow> Inl p
      | Inr FirstDataSector \<Rightarrow> Inr ((N - 2) * ucast (BPB_SecPerClus h) + FirstDataSector))"

text \<open>
  Modelled from the spec: \<open>fat_get_pointer_to_cluster_data\<close> and \<open>fat_get_first_cluster\<close>
  are inline functions of the absent header. The spec gives
  \<open>pointer_to_cluster(N) = base + sector_for_cluster(N) * bytes_per_sector\<close> and
  \<open>first_cluster_of(entry) = (DIR_FstClusHI << 16) | DIR_FstClusLO\<close>.
\<close>

definition fat_get_pointer_to_cluster_data :: "fat_header \<Rightarrow> u32 \<Rightarrow> panic + nat" where
  "fat_get_pointer_to_cluster_data h N =
     (case fat_get_sector_for_cluster h N of
        Inl p \<Rightarrow> Inl p
      | Inr sector \<Rightarrow> Inr (unat (sector * ucast (BPB_BytsPerSec h))))"

definition fat_get_first_cluster :: "fat_entry \<Rightarrow> u32" where
  "fat_get_first_cluster e = push_bit 16 (ucast (DIR_FstClusHI e)) OR ucast (DIR_FstClusLO e)"

text \<open>\<open>fat_get_rootdir\<close> returns the pointer and, through \<open>*cluster\<close>, the cluster.\<close>

definition fat_get_rootdir :: "fat_header \<Rightarrow> fat_type \<Rightarrow> panic + (nat \<times> u32)" where
  "fat_get_rootdir h ft =
     (if ft = fat12_type \<or> ft = fat_unknown then Inl AssertFailed
      else if ft = fat16_type then
        (let sector = ucast (BPB_RsvdSecCnt h) +
                      (word_of_nat (unat (BPB_NumFATs h) * unat (BPB_FATSz16 h)) :: u32)
         in Inr (unat (ucast (BPB_BytsPerSec h) * sector), 0))
      else
        (case fat_get_sector_for_cluster h (BPB_RootClus h) of
           Inl p \<Rightarrow> Inl p
         | Inr sector \<Rightarrow> Inr (unat (ucast (BPB_BytsPerSec h) * sector), BPB_RootClus h)))"

section \<open>C strings\<close>

text \<open>
  A string in memory ends at its first NUL byte. \<open>c_string_of\<close> reads the string out of
  the bytes that hold it; \<open>c_string buf n\<close> reads the string that starts at \<open>buf[0]\<close> when
  its terminator is among the first \<open>n\<close> bytes.

  Modelled from the spec: \<open>strcmp\<close>, \<open>stricmp\<close>, \<open>tolower\<close> and \<open>str_reverse\<close> come from
  string\_util.h, which is not among the sources; the spec calls the comparisons
  case-sensitive and case-insensitive. The callers only test whether the result is zero.
\<close>

definition c_string_of :: "u8 list \<Rightarrow> u8 list" where
  "c_string_of bytes = takeWhile (\<lambda>c. c \<noteq> 0) bytes"

definition c_string :: "(nat \<Rightarrow> u8) \<Rightarrow> nat \<Rightarrow> u8 list" where
  "c_string buf n = c_string_of (map buf [0..<n])"

definition tolower :: "u8 \<Rightarrow> u8" where
  "tolower c = (if 0x41 \<le> c \<and> c \<le> 0x5A then c + 32 else c)"

definition strcmp :: "u8 list \<Rightarrow> u8 list \<Rightarrow> int" where
  "strcmp a b = (if a = b then 0 else 1)"

definition stricmp :: "u8 list \<Rightarrow> u8 list \<Rightarrow> int" where
  "stricmp a b = (if map tolower a = map tolower b then 0 else 1)"

definition str_reverse :: "(nat \<Rightarrow> u8) \<Rightarrow> nat \<Rightarrow> nat \<Rightarrow> u8" where
  "str_reverse buf n i = (if i < n then buf (n - 1 - i) else buf i)"

section \<open>Long-name reassembly\<close>

text \<open>
  \<open>fat_walk_dir_ctx\<close>. The buffer is an array of bytes indexed by position.
  \<open>lname_chksum\<close> is a signed field that holds \<open>-1\<close> or a checksum (the walker compares
  it with an \<open>s16\<close>); \<open>lname_sz\<close> is a signed field that never leaves the range from 0
  to the capacity of the buffer.

  Modelled from the spec: the structure is declared in the absent header; the spec gives the
  buffer 256 bytes. The code stores at \<open>lname_buf[lname_sz]\<close> without comparing
  \<open>lname_sz\<close> with the capacity; a store at an index that is not below the capacity is
  \<open>BufferOverrun\<close>.
\<close>

record fat_walk_dir_ctx =
  lname_buf :: "nat \<Rightarrow> u8"
  lname_sz :: nat
  lname_chksum :: int
  is_valid :: bool

definition LNAME_BUF_SIZE :: nat where
  "LNAME_BUF_SIZE = 256"

text \<open>
  One of the three loops over \<open>LDIR_Name1\<close>, \<open>LDIR_Name2\<close>, \<open>LDIR_Name3\<close>: the bytes come
  in pairs (low byte, high byte). \<open>Invalid\<close> is the \<open>return\<close> after \<open>is_valid = false\<close>,
  \<open>AtEnd\<close> is \<open>goto end\<close>, \<open>Cont\<close> is falling out of the loop.
\<close>

datatype scan = Invalid | AtEnd "u8 list" | Cont "u8 list"

fun scan_units :: "u8 list \<Rightarrow> u8 list \<Rightarrow> scan" where
  "scan_units (c # h # rest) entrybuf =
     (if h \<noteq> 0 then Invalid
      else if c = 0 \<or> c = 0xFF then AtEnd entrybuf
      else scan_units rest (entrybuf @ [c]))"
| "scan_units rest entrybuf = Cont entrybuf"

text \<open>The loop after the label \<open>end\<close>, run over \<open>entrybuf\<close> from its last byte down.\<close>

fun push_chars :: "fat_walk_dir_ctx \<Rightarrow> u8 list \<Rightarrow> panic + fat_walk_dir_ctx" where
  "push_chars ctx [] = Inr ctx"
| "push_chars ctx (c # cs) =
     (if \<not> fat32_is_valid_filename_character c then Inr (ctx\<lparr>is_valid := False\<rparr>)
      else if \<not> lname_sz ctx < LNAME_BUF_SIZE then Inl BufferOverrun
      else push_chars (ctx\<lparr>lname_buf := (lname_buf ctx)(lname_sz ctx := c),
                             lname_sz := Suc (lname_sz ctx)\<rparr>) cs)"

definition scan_slot :: "fat_entry \<Rightarrow> scan" where
  "scan_slot le =
     (case scan_units (take 10 (LDIR_Name1 le)) [] of
        Invalid \<Rightarrow> Invalid
      | AtEnd b \<Rightarrow> AtEnd b
      | Cont b \<Rightarrow>
          (case scan_units (take 12 (LDIR_Name2 le)) b of
             Invalid \<Rightarrow> Invalid
           | AtEnd b \<Rightarrow> AtEnd b
           | Cont b \<Rightarrow> scan_units (take 4 (LDIR_Name3 le)) b))"

text \<open>\<open>bzero(ctx->lname_buf, sizeof(ctx->lname_chksum))\<close> clears the first two bytes.\<close>

definition fat_handle_long_dir_entry ::
  "fat_walk_dir_ctx \<Rightarrow> fat_entry \<Rightarrow> panic + fat_walk_dir_ctx" where
  "fat_handle_long_dir_entry ctx le =
     (let ctx1 = (if lname_chksum ctx \<noteq> uint (LDIR_Chksum le)
                  then ctx\<lparr>lname_buf := (lname_buf ctx)(0 := 0, 1 := 0),
                           lname_sz := 0,
                           lname_chksum := uint (LDIR_Chksum le),
                           is_valid := True\<rparr>
                  else ctx)
      in if \<not> is_valid ctx1 then Inr ctx1
         else (case scan_slot le of
                 Invalid \<Rightarrow> Inr (ctx1\<lparr>is_valid := False\<rparr>)
               | AtEnd b \<Rightarrow> push_chars ctx1 (rev b)
               | Cont b \<Rightarrow> push_chars ctx1 (rev b)))"

section \<open>Directory walker\<close>

text \<open>
  Modelled from the spec: \<open>is_long_name_entry\<close> is an inline function of the absent header;
  the spec identifies a long-name slot by \<open>DIR_Attr == long-name\<close>, where long-name is
  read-only, hidden, system and volume-id together.
\<close>

definition is_long_name_entry :: "fat_entry \<Rightarrow> bool" where
  "is_long_name_entry e =
     (readonly e \<and> hidden e \<and> system e \<and> volume_id e \<and> \<not> directory e \<and> \<not> archive e)"

definition entries_per_cluster :: "fat_header \<Rightarrow> nat" where
  "entries_per_cluster h = (unat (BPB_BytsPerSec h) * unat (BPB_SecPerClus h)) div 32"

text \<open>
  The callback \<open>fat_dentry_cb\<close>: it gets the header, the FAT type, the pointer to the entry,
  the long name or \<open>NULL\<close>, and its own argument, which it may change; it returns an
  \<open>int\<close>, or stops the kernel on a failed assertion.
\<close>

type_synonym 'a fat_dentry_cb =
  "fat_volume \<Rightarrow> fat_type \<Rightarrow> nat \<Rightarrow> u8 list option \<Rightarrow> 'a \<Rightarrow> panic + (int \<times> 'a)"

text \<open>
  Lines 286 to 297: the long name handed to the callback. The terminator is stored at
  \<open>lname_buf[lname_sz]\<close>, the buffer is reversed in place, and the callback reads the
  string at its start.
\<close>

definition long_name_ptr ::
  "fat_walk_dir_ctx \<Rightarrow> fat_entry \<Rightarrow> panic + (u8 list option \<times> fat_walk_dir_ctx)" where
  "long_name_ptr ctx e =
     (if lname_sz ctx > 0 \<and> is_valid ctx \<and>
         lname_chksum ctx = uint (shortname_checksum (DIR_Name e))
      then (if \<not> lname_sz ctx < LNAME_BUF_SIZE then Inl BufferOverrun
            else (let buf = str_reverse ((lname_buf ctx)(lname_sz ctx := 0)) (lname_sz ctx)
                  in Inr (Some (c_string buf (Suc (lname_sz ctx))), ctx\<lparr>lname_buf := buf\<rparr>)))
      else Inr (None, ctx))"

text \<open>
  The \<open>for\<close> loop over the slots of one cluster, \<open>n\<close> iterations being left at index \<open>i\<close>.
  The result says whether the function returned from inside the loop (\<open>True\<close>) or the loop
  ran to its end (\<open>False\<close>).
\<close>

fun walk_entries ::
  "'a fat_dentry_cb \<Rightarrow> fat_volume \<Rightarrow> fat_type \<Rightarrow> nat \<Rightarrow> nat \<Rightarrow> nat \<Rightarrow>
   fat_walk_dir_ctx \<Rightarrow> 'a \<Rightarrow> panic + (bool \<times> fat_walk_dir_ctx \<times> 'a)" where
  "walk_entries cb v ft entry 0 i ctx arg = Inr (False, ctx, arg)"
| "walk_entries cb v ft entry (Suc n) i ctx arg =
     (let e = slot_at v (entry + 32 * i) in
      if is_long_name_entry e
        then (case fat_handle_long_dir_entry ctx e of
                Inl p \<Rightarrow> Inl p
              | Inr ctx1 \<Rightarrow> walk_entries cb v ft entry n (Suc i) ctx1 arg)
      else if volume_id e
        then walk_entries cb v ft entry n (Suc i) ctx arg
      else if DIR_Name e ! 0 = 0x00 then Inr (True, ctx, arg)
      else if DIR_Name e ! 0 = 0xE5 then Inr (True, ctx, arg)
      else (case long_name_ptr ctx e of
              Inl p \<Rightarrow> Inl p
            | Inr (ln, ctx1) \<Rightarrow>
                (case cb v ft (entry + 32 * i) ln arg of
                   Inl p \<Rightarrow> Inl p
                 | Inr (ret, arg') \<Rightarrow>
                     (let ctx' = ctx1\<lparr>lname_sz := 0, lname_chksum := -1\<rparr>
                      in if ret \<noteq> 0 then Inr (True, ctx', arg')
                         else walk_entries cb v ft entry n (Suc i) ctx' arg'))))"

text \<open>
  The \<open>while (true)\<close> loop over the cluster chain. A chain that never ends keeps the loop
  running; the model counts the clusters it may visit and answers \<open>None\<close> when the count is
  used up. The \<open>int\<close> of the result is the value of the \<open>return\<close> statement.
\<close>

fun walk_clusters ::
  "nat \<Rightarrow> 'a fat_dentry_cb \<Rightarrow> fat_volume \<Rightarrow> fat_type \<Rightarrow> nat option \<Rightarrow> u32 \<Rightarrow>
   fat_walk_dir_ctx \<Rightarrow> 'a \<Rightarrow> (panic + (int \<times> fat_walk_dir_ctx \<times> 'a)) option" where
  "walk_clusters 0 cb v ft entry cluster ctx arg = None"
| "walk_clusters (Suc fuel) cb v ft entry cluster ctx arg =
     (case (if cluster \<noteq> 0
            then (case fat_get_pointer_to_cluster_data (hdr v) cluster of
                    Inl p \<Rightarrow> Inl p | Inr a \<Rightarrow> Inr (Some a))
            else Inr entry) of
        Inl p \<Rightarrow> Some (Inl p)
      | Inr None \<Rightarrow> Some (Inl AssertFailed)
      | Inr (Some e) \<Rightarrow>
          (case walk_entries cb v ft e (entries_per_cluster (hdr v)) 0 ctx arg of
             Inl p \<Rightarrow> Some (Inl p)
           | Inr (returned, ctx', arg') \<Rightarrow>
               if returned then Some (Inr (0, ctx', arg'))
               else if cluster = 0 then Some (Inr (0, ctx', arg'))
               else (case fat_read_fat_entry v ft cluster 0 of
                       Inl p \<Rightarrow> Some (Inl p)
                     | Inr val \<Rightarrow>
                         if fat_is_end_of_clusterchain ft val then Some (Inr (0, ctx', arg'))
                         else if fat_is_bad_cluster ft val then Some (Inl AssertFailed)
                         else walk_clusters fuel cb v ft (Some e) val ctx' arg')))"

definition fat_walk_directory ::
  "nat \<Rightarrow> fat_walk_dir_ctx \<Rightarrow> fat_volume \<Rightarrow> fat_type \<Rightarrow> nat option \<Rightarrow> u32 \<Rightarrow>
   'a fat_dentry_cb \<Rightarrow> 'a \<Rightarrow> (panic + (int \<times> fat_walk_dir_ctx \<times> 'a)) option" where
  "fat_walk_directory fuel ctx v ft entry cluster cb arg =
     (if \<not> (ft = fat16_type \<or> ft = fat32_type) then Some (Inl AssertFailed)
      else if ft = fat16_type \<and> \<not> (cluster = 0 \<or> entry = None) then Some (Inl AssertFailed)
      else walk_clusters fuel cb v ft entry cluster
             (ctx\<lparr>lname_buf := (\<lambda>i. 0), lname_sz := 0, lname_chksum := -1\<rparr>) arg)"

section \<open>Short-name decoding\<close>

text \<open>
  \<open>fat_get_short_name\<close>: the base name is \<open>DIR_Name[0..8)\<close> up to the first space, the
  extension \<open>DIR_Name[8..11)\<close> up to the first space, with a dot between them when
  \<open>DIR_Name[8]\<close> is not a space. The result is the bytes written before the terminator.
  Modelled from the spec: the masks \<open>FAT_ENTRY_NTRES_BASE_LOW_CASE\<close> and
  \<open>FAT_ENTRY_NTRES_EXT_LOW_CASE\<close> are declared in the absent header; the spec gives bit 3
  and bit 4 of \<open>DIR_NTRes\<close>.
\<close>

definition FAT_ENTRY_NTRES_BASE_LOW_CASE :: u8 where
  "FAT_ENTRY_NTRES_BASE_LOW_CASE = 0x08"

definition FAT_ENTRY_NTRES_EXT_LOW_CASE :: u8 where
  "FAT_ENTRY_NTRES_EXT_LOW_CASE = 0x10"

definition fat_get_short_name :: "fat_entry \<Rightarrow> u8 list" where
  "fat_get_short_name e =
     (let base = map (\<lambda>c. if DIR_NTRes e AND FAT_ENTRY_NTRES_BASE_LOW_CASE \<noteq> 0
                          then tolower c else c)
                     (takeWhile (\<lambda>c. c \<noteq> 0x20) (take 8 (DIR_Name e)));
          ext = map (\<lambda>c. if DIR_NTRes e AND FAT_ENTRY_NTRES_EXT_LOW_CASE \<noteq> 0
                         then tolower c else c)
                    (takeWhile (\<lambda>c. c \<noteq> 0x20) (take 3 (drop 8 (DIR_Name e))))
      in if DIR_Name e ! 8 \<noteq> 0x20 then base @ [0x2E] @ ext else base)"

section \<open>Path resolution\<close>

text \<open>
  \<open>fat_search_ctx\<close>. \<open>path\<close> is the string at the cursor (\<open>*ctx->path\<close> is its first byte,
  or NUL when nothing is left). The walk context lives inside the structure in the source;
  the callback never touches it, and the model passes it beside the search context.
  \<open>pcl\<close> is a counter that the code only increments from zero by the length of one path
  component plus one; it is a natural number here.
\<close>

record fat_search_ctx =
  path :: "u8 list"
  single_comp :: bool
  pc :: "nat \<Rightarrow> u8"
  pcl :: nat
  shortname :: "u8 list"
  result :: "nat option"
  subdir_cluster :: u32
  not_dir :: bool

definition peek :: "u8 list \<Rightarrow> u8" where
  "peek p = (case p of [] \<Rightarrow> 0 | c # rest \<Rightarrow> c)"

text \<open>The loop \<open>while (*ctx->path && *ctx->path != '/')\<close> of \<open>fat_fetch_next_component\<close>.\<close>

fun fetch_chars :: "u8 list \<Rightarrow> (nat \<Rightarrow> u8) \<Rightarrow> nat \<Rightarrow> u8 list \<times> (nat \<Rightarrow> u8) \<times> nat" where
  "fetch_chars [] buf l = ([], buf, l)"
| "fetch_chars (c # p) buf l =
     (if c \<noteq> 0 \<and> c \<noteq> 0x2F then fetch_chars p (buf(l := c)) (Suc l) else (c # p, buf, l))"

definition fat_fetch_next_component :: "fat_search_ctx \<Rightarrow> panic + (bool \<times> fat_search_ctx)" where
  "fat_fetch_next_component ctx =
     (if pcl ctx \<noteq> 0 then Inl AssertFailed
      else (case fetch_chars (path ctx) (pc ctx) (pcl ctx) of
              (p, buf, l) \<Rightarrow>
                Inr (Suc l \<noteq> 0, ctx\<lparr>path := p, pc := buf(l := 0), pcl := Suc l\<rparr>)))"

text \<open>The part of \<open>fat_search_entry_cb\<close> after a match has been found (line 553 onwards).\<close>

definition search_cb_matched :: "fat_entry \<Rightarrow> nat \<Rightarrow> fat_search_ctx \<Rightarrow> panic + (int \<times> fat_search_ctx)" where
  "search_cb_matched e entry ctx =
     (if single_comp ctx \<or> peek (path ctx) = 0 then Inr (-1, ctx\<lparr>result := Some entry\<rparr>)
      else if peek (path ctx) \<noteq> 0x2F then Inl AssertFailed
      else (let ctx1 = ctx\<lparr>path := tl (path ctx)\<rparr> in
            if peek (path ctx1) = 0
              then Inr (-1, if directory e then ctx1\<lparr>result := Some entry\<rparr>
                            else ctx1\<lparr>not_dir := True\<rparr>)
            else if \<not> directory e then Inr (-1, ctx1)
            else Inr (-1, ctx1\<lparr>pcl := 0, subdir_cluster := fat_get_first_cluster e\<rparr>)))"

text \<open>The comparison of the component with the name of the entry (lines 527 to 551).\<close>

definition search_cb_compare ::
  "fat_volume \<Rightarrow> nat \<Rightarrow> u8 list option \<Rightarrow> fat_search_ctx \<Rightarrow> panic + (int \<times> fat_search_ctx)" where
  "search_cb_compare v entry long_name ctx =
     (case long_name of
        Some l \<Rightarrow>
          if strcmp l (c_string (pc ctx) (pcl ctx)) \<noteq> 0 then Inr (0, ctx)
          else search_cb_matched (slot_at v entry) entry ctx
      | None \<Rightarrow>
          (let ctx1 = ctx\<lparr>shortname := fat_get_short_name (slot_at v entry)\<rparr> in
           if stricmp (c_string_of (shortname ctx1)) (c_string (pc ctx1) (pcl ctx1)) \<noteq> 0
             then Inr (0, ctx1)
           else search_cb_matched (slot_at v entry) entry ctx1))"

definition fat_search_entry_cb :: "fat_search_ctx fat_dentry_cb" where
  "fat_search_entry_cb v ft entry long_name ctx =
     (if pcl ctx = 0 then
        (case fat_fetch_next_component ctx of
           Inl p \<Rightarrow> Inl p
         | Inr (fetched, ctx1) \<Rightarrow>
             if \<not> fetched then Inr (-1, ctx1)
             else search_cb_compare v entry long_name ctx1)
      else search_cb_compare v entry long_name ctx)"

text \<open>\<open>fat_init_search_ctx\<close>: \<open>bzero\<close> of the whole structure, then the two assignments.\<close>

definition fat_init_search_ctx :: "u8 list \<Rightarrow> bool \<Rightarrow> fat_search_ctx" where
  "fat_init_search_ctx p sc =
     \<lparr>path = p, single_comp = sc, pc = (\<lambda>i. 0), pcl = 0, shortname = [],
      result = None, subdir_cluster = 0, not_dir = False\<rparr>"

definition zeroed_walk_ctx :: fat_walk_dir_ctx where
  "zeroed_walk_ctx = \<lparr>lname_buf = (\<lambda>i. 0), lname_sz = 0, lname_chksum = 0, is_valid = False\<rparr>"

text \<open>
  The loop \<open>while (ctx.subdir_cluster)\<close>. The first argument bounds the number of its
  iterations, the second the clusters of each walk.
\<close>

fun search_subdirs ::
  "nat \<Rightarrow> nat \<Rightarrow> fat_volume \<Rightarrow> fat_type \<Rightarrow> fat_walk_dir_ctx \<Rightarrow> fat_search_ctx \<Rightarrow>
   (panic + fat_search_ctx) option" where
  "search_subdirs 0 fuel v ft wctx ctx = None"
| "search_subdirs (Suc n) fuel v ft wctx ctx =
     (if subdir_cluster ctx = 0 then Some (Inr ctx)
      else (case fat_walk_directory fuel wctx v ft None (subdir_cluster ctx)
                   fat_search_entry_cb (ctx\<lparr>subdir_cluster := 0\<rparr>) of
              None \<Rightarrow> None
            | Some (Inl p) \<Rightarrow> Some (Inl p)
            | Some (Inr (r, wctx', ctx')) \<Rightarrow> search_subdirs n fuel v ft wctx' ctx'))"

text \<open>
  The search proper, from \<open>fat_init_search_ctx\<close> to the end of the loop: the search context
  the function ends with.
\<close>

definition search_from_root ::
  "nat \<Rightarrow> fat_volume \<Rightarrow> fat_type \<Rightarrow> nat \<Rightarrow> u32 \<Rightarrow> u8 list \<Rightarrow> (panic + fat_search_ctx) option" where
  "search_from_root fuel v ft root root_dir_cluster p =
     (case fat_walk_directory fuel zeroed_walk_ctx v ft (Some root) root_dir_cluster
             fat_search_entry_cb (fat_init_search_ctx p False) of
        None \<Rightarrow> None
      | Some (Inl e) \<Rightarrow> Some (Inl e)
      | Some (Inr (r, wctx, ctx)) \<Rightarrow> search_subdirs fuel fuel v ft wctx ctx)"

definition search_errno :: "fat_search_ctx \<Rightarrow> int" where
  "search_errno ctx = (if not_dir ctx then -20 else if result ctx = None then -2 else 0)"

text \<open>
  \<open>fat_search_entry\<close> returns the entry pointer and leaves the error number in \<open>*err\<close>;
  \<open>err0\<close> is what \<open>*err\<close> held before the call.
\<close>

definition fat_search_entry ::
  "nat \<Rightarrow> fat_volume \<Rightarrow> fat_type \<Rightarrow> u8 list \<Rightarrow> int \<Rightarrow> (panic + (nat option \<times> int)) option" where
  "fat_search_entry fuel v ft0 abspath err0 =
     (case (if ft0 = fat_unknown then fat_get_type (hdr v) else Inr ft0) of
        Inl p \<Rightarrow> Some (Inl p)
      | Inr ft \<Rightarrow>
          if peek abspath \<noteq> 0x2F then Some (Inl AssertFailed)
          else (case fat_get_rootdir (hdr v) ft of
                  Inl p \<Rightarrow> Some (Inl p)
                | Inr (root, root_dir_cluster) \<Rightarrow>
                    if peek (tl abspath) = 0 then Some (Inr (Some root, err0))
                    else (case search_from_root fuel v ft root root_dir_cluster (tl abspath) of
                            None \<Rightarrow> None
                          | Some (Inl p) \<Rightarrow> Some (Inl p)
                          | Some (Inr ctx) \<Rightarrow> Some (Inr (result ctx, search_errno ctx)))))"

section \<open>Reading a file\<close>

text \<open>\<open>memmove(dest_buf + off, data, n)\<close> with \<open>data\<close> a pointer into the image.\<close>

definition memmove :: "u8 list \<Rightarrow> nat \<Rightarrow> (nat \<Rightarrow> u8) \<Rightarrow> nat \<Rightarrow> nat \<Rightarrow> u8 list" where
  "memmove dest off m data n = take off dest @ map (\<lambda>k. m (data + k)) [0..<n] @ drop (off + n) dest"

text \<open>
  The \<open>do ... while (written < fsize)\<close> loop; the first argument bounds the number of
  clusters it may visit.
\<close>

fun read_clusters ::
  "nat \<Rightarrow> fat_volume \<Rightarrow> fat_type \<Rightarrow> nat \<Rightarrow> nat \<Rightarrow> u32 \<Rightarrow> nat \<Rightarrow> u8 list \<Rightarrow>
   (panic + u8 list) option" where
  "read_clusters 0 v ft cs fsize cluster written dest = None"
| "read_clusters (Suc fuel) v ft cs fsize cluster written dest =
     (case fat_get_pointer_to_cluster_data (hdr v) cluster of
        Inl p \<Rightarrow> Some (Inl p)
      | Inr data \<Rightarrow>
          if fsize - written \<le> cs
            then Some (Inr (memmove dest written (mem v) data (fsize - written)))
          else if \<not> (fsize - (written + cs) > 0) then Some (Inl AssertFailed)
          else (case fat_read_fat_entry v ft cluster 0 of
                  Inl p \<Rightarrow> Some (Inl p)
                | Inr fatval \<Rightarrow>
                    if fat_is_end_of_clusterchain ft fatval then Some (Inl NotReached)
                    else if fat_is_bad_cluster ft fatval then Some (Inl AssertFailed)
                    else if written + cs < fsize
                      then read_clusters fuel v ft cs fsize fatval (written + cs)
                             (memmove dest written (mem v) data cs)
                    else Some (Inr (memmove dest written (mem v) data cs))))"

definition cluster_size :: "fat_header \<Rightarrow> nat" where
  "cluster_size h = unat (BPB_SecPerClus h) * unat (BPB_BytsPerSec h)"

definition fat_read_whole_file ::
  "nat \<Rightarrow> fat_volume \<Rightarrow> fat_entry \<Rightarrow> u8 list \<Rightarrow> (panic + u8 list) option" where
  "fat_read_whole_file fuel v e dest_buf =
     (if \<not> unat (DIR_FileSize e) \<le> length dest_buf then Some (Inl AssertFailed)
      else (case fat_get_type (hdr v) of
              Inl p \<Rightarrow> Some (Inl p)
            | Inr ft \<Rightarrow>
                read_clusters fuel v ft (cluster_size (hdr v)) (unat (DIR_FileSize e))
                  (fat_get_first_cluster e) 0 dest_buf))"

section \<open>Notions used to state the properties\<close>

text \<open>
  The path component the search callback compares an entry with: the string held in
  \<open>pc\<close>, or, when none is held (\<open>pcl\<close> is 0), the bytes at the path cursor up to the
  next \<open>/\<close> or the end of the path, which the callback fetches first.
\<close>

definition current_component :: "fat_search_ctx \<Rightarrow> u8 list" where
  "current_component ctx =
     (if pcl ctx = 0 then takeWhile (\<lambda>c. c \<noteq> 0 \<and> c \<noteq> 0x2F) (path ctx)
      else c_string (pc ctx) (pcl ctx))"

text \<open>
  The characters one long-name slot contributes, in the order of the name: \<open>None\<close> when a
  unit with a nonzero high byte is met before the end of the slot's part of the name.
\<close>

definition slot_chars :: "fat_entry \<Rightarrow> u8 list option" where
  "slot_chars le =
     (case scan_slot le of Invalid \<Rightarrow> None | AtEnd b \<Rightarrow> Some b | Cont b \<Rightarrow> Some b)"

text \<open>
  The UTF-16 units of a name field as pairs (low byte, high byte), the units of a slot in
  the order of the name, and the units that are characters of the name: those with a zero
  high byte whose low byte is neither \<open>0x00\<close> nor \<open>0xFF\<close>.
\<close>

fun units :: "u8 list \<Rightarrow> (u8 \<times> u8) list" where
  "units (c # h # rest) = (c, h) # units rest"
| "units rest = []"

definition slot_units :: "fat_entry \<Rightarrow> (u8 \<times> u8) list" where
  "slot_units le =
     units (take 10 (LDIR_Name1 le)) @ units (take 12 (LDIR_Name2 le)) @
     units (take 4 (LDIR_Name3 le))"

definition unit_is_char :: "u8 \<times> u8 \<Rightarrow> bool" where
  "unit_is_char u \<longleftrightarrow> snd u = 0 \<and> fst u \<noteq> 0 \<and> fst u \<noteq> 0xFF"

text \<open>What a scan gives, read off the units: it stops at the first unit that is no character.\<close>

definition scan_of :: "u8 list \<Rightarrow> (u8 \<times> u8) list \<Rightarrow> scan" where
  "scan_of acc us =
     (case dropWhile unit_is_char us of
        [] \<Rightarrow> Cont (acc @ map fst us)
      | u # rest \<Rightarrow> if snd u \<noteq> 0 then Invalid
                    else AtEnd (acc @ map fst (takeWhile unit_is_char us)))"

text \<open>
  A long-name slot is well formed when its scan meets no unit with a nonzero high byte and
  all its characters are in the whitelist. \<open>slot_text\<close> is what the slot contributes to
  the name (nothing when the scan fails), \<open>slot_len\<close> the number of these characters.
\<close>

definition slot_text :: "fat_entry \<Rightarrow> u8 list" where
  "slot_text s = (case slot_chars s of None \<Rightarrow> [] | Some b \<Rightarrow> b)"

definition slot_len :: "fat_entry \<Rightarrow> nat" where
  "slot_len s = length (slot_text s)"

definition slot_ok :: "fat_entry \<Rightarrow> bool" where
  "slot_ok s \<longleftrightarrow>
     slot_chars s \<noteq> None \<and> (\<forall>c \<in> set (slot_text s). fat32_is_valid_filename_character c)"

text \<open>
  The last run of a list of long-name slots for a checksum \<open>K\<close>: the slots behind the last
  slot that carries another checksum (none when the last slot itself carries another
  one). The name of a run: the characters of its slots, last slot first, as the slots of a
  name are stored with the end of the name first.
\<close>

definition last_run :: "u8 \<Rightarrow> fat_entry list \<Rightarrow> fat_entry list" where
  "last_run K ls = rev (takeWhile (\<lambda>s. LDIR_Chksum s = K) (rev ls))"


text \<open>
  The slots of a list fit the buffer when, at every slot, the slots of its run up to and
  including it hold fewer characters than the buffer has bytes: every store of a character
  stays inside the buffer and leaves room for the terminator.
\<close>

definition runs_fit :: "fat_entry list \<Rightarrow> bool" where
  "runs_fit ls \<longleftrightarrow>
     (\<forall>n \<in> {..<length ls}.
        sum_list (map slot_len (last_run (LDIR_Chksum (ls ! n)) (take (Suc n) ls)))
          < LNAME_BUF_SIZE)"




text \<open>
  The cluster chain of a file, read off the FAT: the cluster reached from \<open>c\<close> after
  \<open>k\<close> steps (the chain stays where an entry cannot be read), and the byte offset of a
  cluster's data in the image.
\<close>

fun nth_cluster :: "fat_volume \<Rightarrow> fat_type \<Rightarrow> u32 \<Rightarrow> nat \<Rightarrow> u32" where
  "nth_cluster v ft c 0 = c"
| "nth_cluster v ft c (Suc k) =
     (case fat_read_fat_entry v ft c 0 of Inl p \<Rightarrow> c | Inr next \<Rightarrow> nth_cluster v ft next k)"

definition cluster_ptr :: "fat_volume \<Rightarrow> u32 \<Rightarrow> nat" where
  "cluster_ptr v c = (case fat_get_pointer_to_cluster_data (hdr v) c of Inl p \<Rightarrow> 0 | Inr a \<Rightarrow> a)"

text \<open>Byte \<open>i\<close> of the file that starts at cluster \<open>c\<close>, for clusters of \<open>cs\<close> bytes.\<close>

definition file_byte :: "fat_volume \<Rightarrow> fat_type \<Rightarrow> nat \<Rightarrow> u32 \<Rightarrow> nat \<Rightarrow> u8" where
  "file_byte v ft cs c i = mem v (cluster_ptr v (nth_cluster v ft c (i div cs)) + i mod cs)"

text \<open>
  A file of \<open>fsize\<close> bytes in clusters of \<open>cs\<close> bytes takes \<open>links_needed fsize cs\<close> steps
  along the FAT: one behind every cluster but the last. The chain from \<open>c\<close> is sound for
  \<open>k\<close> steps when each of the first \<open>k\<close> FAT entries on it can be read and is neither an
  end-of-chain mark nor a bad-cluster mark.
\<close>

definition links_needed :: "nat \<Rightarrow> nat \<Rightarrow> nat" where
  "links_needed fsize cs = (fsize - 1) div cs"

fun sound_chain :: "fat_volume \<Rightarrow> fat_type \<Rightarrow> u32 \<Rightarrow> nat \<Rightarrow> bool" where
  "sound_chain v ft c 0 = True"
| "sound_chain v ft c (Suc k) =
     (case fat_read_fat_entry v ft c 0 of
        Inl p \<Rightarrow> False
      | Inr next \<Rightarrow>
          \<not> fat_is_end_of_clusterchain ft next \<and> \<not> fat_is_bad_cluster ft next \<and>
          sound_chain v ft next k)"

text \<open>
  Two searches that differ by a \<open>/\<close> at the end of the path. \<open>slash_twin a a'\<close>: the
  second context is the first one with \<open>/\<close> appended to what is left of the path, and the
  first search has settled nothing yet. \<open>file_and_not_dir v b b'\<close>: the first search has
  found an entry that is not a directory, the second has set \<open>not_dir\<close> and found nothing.
  \<open>settled_otherwise v b\<close>: the first search has ended with \<open>not_dir\<close> or with a directory.
\<close>

definition slash_twin :: "fat_search_ctx \<Rightarrow> fat_search_ctx \<Rightarrow> bool" where
  "slash_twin a a' \<longleftrightarrow>
     a' = a\<lparr>path := path a @ [0x2F]\<rparr> \<and> result a = None \<and> \<not> not_dir a \<and>
     \<not> single_comp a \<and> 0 \<notin> set (path a)"

definition file_and_not_dir :: "fat_volume \<Rightarrow> fat_search_ctx \<Rightarrow> fat_search_ctx \<Rightarrow> bool" where
  "file_and_not_dir v b b' \<longleftrightarrow>
     subdir_cluster b = 0 \<and> subdir_cluster b' = 0 \<and>
     (\<exists>e. result b = Some e \<and> \<not> directory (slot_at v e)) \<and> \<not> not_dir b \<and>
     result b' = None \<and> not_dir b'"

definition settled_otherwise :: "fat_volume \<Rightarrow> fat_search_ctx \<Rightarrow> bool" where
  "settled_otherwise v b \<longleftrightarrow>
     subdir_cluster b = 0 \<and>
     (not_dir b \<or> (\<exists>e. result b = Some e \<and> directory (slot_at v e)))"

text \<open>
  A search that has settled nothing (\<open>unsettled\<close>), and one in which \<open>result\<close> and
  \<open>not_dir\<close> are not both set and no descent is pending once either is
  (\<open>settled_once\<close>).
\<close>

definition unsettled :: "fat_search_ctx \<Rightarrow> bool" where
  "unsettled a \<longleftrightarrow> result a = None \<and> \<not> not_dir a"

definition settled_once :: "fat_search_ctx \<Rightarrow> bool" where
  "settled_once a \<longleftrightarrow>
     \<not> (not_dir a \<and> result a \<noteq> None) \<and>
     (not_dir a \<or> result a \<noteq> None \<longrightarrow> subdir_cluster a = 0)"

section \<open>A recording callback and example volumes\<close>

text \<open>
  A callback that records the entry pointer and the long name of every call and never asks
  for a stop, one that asks for a stop at once, and the list the first one has recorded when
  the walk returns.
\<close>

definition record_cb :: "(nat \<times> u8 list option) list fat_dentry_cb" where
  "record_cb v ft entry long_name log = Inr (0, log @ [(entry, long_name)])"

definition stop_cb :: "unit fat_dentry_cb" where
  "stop_cb v ft entry long_name u = Inr (-1, u)"

definition delivered ::
  "nat \<Rightarrow> fat_volume \<Rightarrow> fat_type \<Rightarrow> nat option \<Rightarrow> u32 \<Rightarrow> (nat \<times> u8 list option) list option" where
  "delivered fuel v ft entry cluster =
     (case fat_walk_directory fuel zeroed_walk_ctx v ft entry cluster record_cb [] of
        Some (Inr (r, ctx, log)) \<Rightarrow> Some log
      | Some (Inl p) \<Rightarrow> None
      | None \<Rightarrow> None)"

definition walk_return :: "(panic + (int \<times> 'c \<times> 'a)) option \<Rightarrow> (panic + int) option" where
  "walk_return x =
     (case x of None \<Rightarrow> None | Some (Inl p) \<Rightarrow> Some (Inl p) | Some (Inr (r, c, a)) \<Rightarrow> Some (Inr r))"

definition ascii :: "string \<Rightarrow> u8 list" where
  "ascii s = map (\<lambda>c. of_nat (of_char c)) s"

definition utf16 :: "string \<Rightarrow> u8 list" where
  "utf16 s = concat (map (\<lambda>c. [of_nat (of_char c), 0]) s)"

definition blank_slot :: fat_entry where
  "blank_slot =
     \<lparr>DIR_Name = replicate 11 0, readonly = False, hidden = False, system = False,
      volume_id = False, directory = False, archive = False, DIR_NTRes = 0,
      DIR_FstClusHI = 0, DIR_FstClusLO = 0, DIR_FileSize = 0,
      LDIR_Name1 = replicate 10 0, LDIR_Chksum = 0, LDIR_Name2 = replicate 12 0,
      LDIR_Name3 = replicate 4 0\<rparr>"

definition file_slot :: "u8 list \<Rightarrow> u16 \<Rightarrow> u32 \<Rightarrow> fat_entry" where
  "file_slot name clu fsize =
     blank_slot\<lparr>DIR_Name := name, archive := True, DIR_FstClusLO := clu,
                DIR_FileSize := fsize\<rparr>"

definition dir_slot :: "u8 list \<Rightarrow> u16 \<Rightarrow> fat_entry" where
  "dir_slot name clu = blank_slot\<lparr>DIR_Name := name, directory := True, DIR_FstClusLO := clu\<rparr>"

definition label_slot :: "u8 list \<Rightarrow> fat_entry" where
  "label_slot name = blank_slot\<lparr>DIR_Name := name, volume_id := True\<rparr>"

definition long_slot :: "u8 \<Rightarrow> u8 list \<Rightarrow> u8 list \<Rightarrow> u8 list \<Rightarrow> fat_entry" where
  "long_slot chk n1 n2 n3 =
     blank_slot\<lparr>DIR_Name := replicate 11 0x41, readonly := True, hidden := True, system := True,
                volume_id := True, LDIR_Name1 := n1, LDIR_Chksum := chk, LDIR_Name2 := n2,
                LDIR_Name3 := n3\<rparr>"

text \<open>
  A FAT16 volume with 512-byte sectors and one sector per cluster: one reserved sector, one
  FAT of 20 sectors at byte 512, the root directory in sector 21 (byte 10752), cluster 2 in
  sector 22 (byte 11264). The root holds the volume label \<open>TILCK\<close>, \<open>HELLO.TXT\<close> (5 bytes,
  cluster 3), the file \<open>ReadMe.md\<close> with its long-name slot (checksum \<open>0xEB\<close>) and the
  alias \<open>README~1.MD\<close>, and the directory \<open>SUB\<close> (cluster 2). \<open>SUB\<close> holds \<open>DATA.BIN\<close>
  (600 bytes, clusters 4 and 6), a deleted slot, and \<open>AFTER.TXT\<close>. Cluster 7 (byte 13824)
  is a directory whose only file, \<open>LongFileName.txt\<close> with the alias \<open>LONGFI~1.TXT\<close>
  (checksum \<open>0xD4\<close>), has two long-name slots, the first of them with the wrong checksum
  \<open>0xD5\<close>. Names are written as their bytes.
\<close>

definition hdr16 :: fat_header where
  "hdr16 =
     \<lparr>BPB_BytsPerSec = 512, BPB_SecPerClus = 1, BPB_RsvdSecCnt = 1, BPB_NumFATs = 1,
      BPB_RootEntCnt = 16, BPB_TotSec16 = 5000, BPB_FATSz16 = 20, BPB_TotSec32 = 0,
      BPB_FATSz32 = 0, BPB_RootClus = 0\<rparr>"

definition slots16 :: "(nat \<times> fat_entry) list" where
  "slots16 =
     [(10752, label_slot [0x54, 0x49, 0x4C, 0x43, 0x4B, 0x20, 0x20, 0x20, 0x20, 0x20, 0x20]),
      (10784, file_slot [0x48, 0x45, 0x4C, 0x4C, 0x4F, 0x20, 0x20, 0x20, 0x54, 0x58, 0x54] 3 5),
      (10816, long_slot 0xEB
                [0x52, 0, 0x65, 0, 0x61, 0, 0x64, 0, 0x4D, 0]
                [0x65, 0, 0x2E, 0, 0x6D, 0, 0x64, 0, 0, 0, 0xFF, 0xFF]
                [0xFF, 0xFF, 0xFF, 0xFF]),
      (10848, file_slot [0x52, 0x45, 0x41, 0x44, 0x4D, 0x45, 0x7E, 0x31, 0x4D, 0x44, 0x20] 0 0),
      (10880, dir_slot [0x53, 0x55, 0x42, 0x20, 0x20, 0x20, 0x20, 0x20, 0x20, 0x20, 0x20] 2),
      (11264, file_slot [0x44, 0x41, 0x54, 0x41, 0x20, 0x20, 0x20, 0x20, 0x42, 0x49, 0x4E] 4 600),
      (11296, file_slot [0xE5, 0x4C, 0x44, 0x20, 0x20, 0x20, 0x20, 0x20, 0x54, 0x58, 0x54] 0 0),
      (11328, file_slot [0x41, 0x46, 0x54, 0x45, 0x52, 0x20, 0x20, 0x20, 0x54, 0x58, 0x54] 0 0),
      (13824, long_slot 0xD5
                [0x74, 0, 0x78, 0, 0x74, 0, 0, 0, 0xFF, 0xFF]
                [0xFF, 0xFF, 0xFF, 0xFF, 0xFF, 0xFF, 0xFF, 0xFF, 0xFF, 0xFF, 0xFF, 0xFF]
                [0xFF, 0xFF, 0xFF, 0xFF]),
      (13856, long_slot 0xD4
                [0x4C, 0, 0x6F, 0, 0x6E, 0, 0x67, 0, 0x46, 0]
                [0x69, 0, 0x6C, 0, 0x65, 0, 0x4E, 0, 0x61, 0, 0x6D, 0]
                [0x65, 0, 0x2E, 0]),
      (13888, file_slot [0x4C, 0x4F, 0x4E, 0x47, 0x46, 0x49, 0x7E, 0x31, 0x54, 0x58, 0x54] 0 0)]"

definition fat16_bytes :: "(nat \<times> u8) list" where
  "fat16_bytes =
     [(516, 0xFF), (517, 0xFF), (518, 0xFF), (519, 0xFF), (520, 6), (521, 0),
      (524, 0xFF), (525, 0xFF), (526, 0xFF), (527, 0xFF),
      (11776, 0x48), (11777, 0x65), (11778, 0x6C), (11779, 0x6C), (11780, 0x6F)]"

definition mem16 :: "nat \<Rightarrow> u8" where
  "mem16 a =
     (case map_of fat16_bytes a of
        Some b \<Rightarrow> b
      | None \<Rightarrow> if 12288 \<le> a \<and> a < 13824 then of_nat (a mod 251) else 0)"

definition slot16 :: "nat \<Rightarrow> fat_entry" where
  "slot16 a = (case map_of slots16 a of Some e \<Rightarrow> e | None \<Rightarrow> blank_slot)"

definition vol16 :: fat_volume where
  "vol16 = \<lparr>hdr = hdr16, mem = mem16, slot_at = slot16\<rparr>"

text \<open>
  The same volume with every directory slot a volume label: no slot ends a directory or
  is delivered, so a walk ends only where the directory itself ends.
\<close>

definition label16 :: "nat \<Rightarrow> fat_entry" where
  "label16 a = label_slot [0x54, 0x49, 0x4C, 0x43, 0x4B, 0x20, 0x20, 0x20, 0x20, 0x20, 0x20]"

definition vol16_labels :: fat_volume where
  "vol16_labels = \<lparr>hdr = hdr16, mem = mem16, slot_at = label16\<rparr>"

section \<open>The example volume\<close>

text \<open>The bytes of the example volume are the names they stand for.\<close>

lemma example_names:
  "DIR_Name (slot_at vol16 10752) = ascii ''TILCK      '' \<and>
   DIR_Name (slot_at vol16 10784) = ascii ''HELLO   TXT'' \<and>
   slot_chars (slot_at vol16 10816) = Some (ascii ''ReadMe.md'') \<and>
   LDIR_Chksum (slot_at vol16 10816) = shortname_checksum (ascii ''README~1MD '') \<and>
   DIR_Name (slot_at vol16 10848) = ascii ''README~1MD '' \<and>
   DIR_Name (slot_at vol16 10880) = ascii ''SUB        '' \<and>
   DIR_Name (slot_at vol16 11264) = ascii ''DATA    BIN'' \<and>
   DIR_Name (slot_at vol16 11328) = ascii ''AFTER   TXT'' \<and>
   slot_chars (slot_at vol16 13824) = Some (ascii ''txt'') \<and>
   LDIR_Chksum (slot_at vol16 13824) = shortname_checksum (ascii ''LONGFI~1TXT'') + 1 \<and>
   slot_chars (slot_at vol16 13856) = Some (ascii ''LongFileName.'') \<and>
   LDIR_Chksum (slot_at vol16 13856) = shortname_checksum (ascii ''LONGFI~1TXT'') \<and>
   DIR_Name (slot_at vol16 13888) = ascii ''LONGFI~1TXT'' \<and>
   map (mem vol16) [11776..<11781] = ascii ''Hello''"
  by code_simp

section \<open>The short-name checksum is a rotate-and-add fold\<close>

lemma rotate_by_halves:
  "(if s AND 1 \<noteq> 0 then 0x80 else 0) + drop_bit 1 s = word_rotr 1 (s::u8)"
proof -
  have a: "(if s AND 1 \<noteq> 0 then 0x80 else 0) = push_bit 7 (s AND 1)"
    by (cases "bit s 0") (auto simp: and_one_eq mod_2_eq_odd)
  have d: "push_bit 7 (s AND 1) AND drop_bit 1 s = 0"
  proof (rule bit_word_eqI)
    fix n assume "n < LENGTH(8)"
    then have "n \<in> {0,1,2,3,4,5,6,7}" by auto
    then show "bit (push_bit 7 (s AND 1) AND drop_bit 1 s) n = bit (0::u8) n"
      by (auto simp: bit_simps dest: bit_imp_le_length)
  qed
  have b: "push_bit 7 (s AND 1) + drop_bit 1 s = push_bit 7 (s AND 1) OR drop_bit 1 s"
    by (rule disjunctive_add_eq_or) (rule d)
  have c: "push_bit 7 (s AND 1) OR drop_bit 1 s = word_rotr 1 s"
  proof (rule bit_word_eqI)
    fix n assume "n < LENGTH(8)"
    then have "n \<in> {0,1,2,3,4,5,6,7}" by auto
    then show "bit (push_bit 7 (s AND 1) OR drop_bit 1 s) n = bit (word_rotr 1 s) n"
      by (auto simp: bit_simps dest: bit_imp_le_length)
  qed
  show ?thesis using a b c by simp
qed

lemma checksum_step_rotate: "checksum_step s b = rotate_right_u8 s + b"
  unfolding checksum_step_def rotate_right_u8_def using rotate_by_halves [of s] by simp

lemma checksum_loop_foldl:
  "i + n \<le> length xs \<Longrightarrow>
   checksum_loop n i xs s = foldl checksum_step s (take n (drop i xs))"
proof (induction n arbitrary: i s)
  case 0
  then show ?case by simp
next
  case (Suc n)
  have "take (Suc n) (drop i xs) = xs ! i # take n (drop (Suc i) xs)"
    using Suc.prems
    by (simp add: take_Suc Cons_nth_drop_Suc[symmetric] hd_drop_conv_nth tl_drop drop_Suc)
  then show ?case using Suc by simp
qed

lemma shortname_checksum_foldl:
  "length name = 11 \<Longrightarrow> shortname_checksum name = foldl checksum_step 0 name"
  using checksum_loop_foldl [of 0 11 name 0] by (simp add: shortname_checksum_def)

text \<open>
  Claim C7. Over the eleven bytes of an 8.3 name, \<open>shortname_checksum\<close> is the fold that
  starts from 0 and at each byte rotates the running sum one bit to the right within eight
  bits and adds the byte, modulo 256.
\<close>

theorem shortname_checksum_fold:
  assumes "length name = 11"
  shows "shortname_checksum name = checksum_spec name"
proof -
  have "checksum_step = (\<lambda>s b. rotate_right_u8 s + b)"
    by (intro ext) (rule checksum_step_rotate)
  then show ?thesis
    using assms shortname_checksum_foldl [of name] by (simp add: checksum_spec_def)
qed

theorem shortname_checksum_fold_witness:
  "length [0x48,0x45,0x4C,0x4C,0x4F,0x20,0x20,0x20,0x54,0x58,0x54 :: u8] = 11 \<and>
   shortname_checksum [0x48,0x45,0x4C,0x4C,0x4F,0x20,0x20,0x20,0x54,0x58,0x54] =
   checksum_spec [0x48,0x45,0x4C,0x4C,0x4F,0x20,0x20,0x20,0x54,0x58,0x54]"
  using shortname_checksum_fold [of "[0x48,0x45,0x4C,0x4C,0x4F,0x20,0x20,0x20,0x54,0x58,0x54]"]
  by simp

lemma shortname_checksum_hello:
  "shortname_checksum [0x48,0x45,0x4C,0x4C,0x4F,0x20,0x20,0x20,0x54,0x58,0x54] = 0xF1"
  by code_simp

section \<open>Classification by cluster count\<close>

text \<open>
  Claim C4. For a header whose bytes-per-sector and sectors-per-cluster are not zero (the
  data model makes both powers of two), \<open>fat_get_type\<close> returns a type and never stops:
  fat12 when the cluster count is below 4085, fat16 when it is at least 4085 and below
  65525, fat32 from 65525 on; it never answers \<open>fat_unknown\<close>. The count is the only
  quantity the answer depends on, and it is computed from the geometry fields alone.
\<close>

theorem fat_get_type_by_count:
  assumes "BPB_BytsPerSec h \<noteq> 0" and "BPB_SecPerClus h \<noteq> 0"
  shows "\<exists>rds. fat_get_RootDirSectors h = Inr rds \<and>
           fat_get_type h =
             Inr (if unat (CountofClusters h rds) < 4085 then fat12_type
                  else if unat (CountofClusters h rds) < 65525 then fat16_type
                  else fat32_type) \<and>
           fat_get_type h \<noteq> Inr fat_unknown"
  using assms
  by (auto simp: fat_get_type_def fat_get_RootDirSectors_def word_less_nat_alt)

theorem fat_get_type_by_count_witness:
  "BPB_BytsPerSec hdr16 \<noteq> 0 \<and> BPB_SecPerClus hdr16 \<noteq> 0 \<and>
   fat_get_RootDirSectors hdr16 = Inr 1 \<and>
   unat (CountofClusters hdr16 1) = 4978 \<and>
   fat_get_type hdr16 = Inr fat16_type"
proof -
  have h1: "BPB_BytsPerSec hdr16 \<noteq> 0" and h2: "BPB_SecPerClus hdr16 \<noteq> 0"
    by (simp_all add: hdr16_def)
  have r: "fat_get_RootDirSectors hdr16 = Inr 1" by code_simp
  have c: "unat (CountofClusters hdr16 1) = 4978" by code_simp
  from fat_get_type_by_count [OF h1 h2] r c
  have "fat_get_type hdr16 = Inr fat16_type" by auto
  then show ?thesis using h1 h2 r c by simp
qed

section \<open>The FAT entry reader\<close>

lemma unat_ucast_16_32: "unat (ucast (x::u16) :: u32) = unat x"
  using unsigned_less [of x, where 'a = nat]
  by (simp add: unsigned_ucast_eq take_bit_nat_eq_self)

lemma unat_ucast_8_32: "unat (ucast (x::u8) :: u32) = unat x"
  using unsigned_less [of x, where 'a = nat]
  by (simp add: unsigned_ucast_eq take_bit_nat_eq_self)

lemma ucast16_less: "unat (ucast (x::u16) :: u32) < 65536"
  using unsigned_less [of x, where 'a = nat] by (simp add: unat_ucast_16_32)

lemma mask28: "(x::u32) AND 0x0FFFFFFF < 0x10000000"
proof -
  have "x AND mask 28 < 2 ^ 28" by (rule and_mask_less') simp
  then show ?thesis by (simp add: mask_eq_exp_minus_1)
qed

text \<open>Sector number times sector size plus offset within the sector is a linear address.\<close>

lemma linear_address:
  fixes base off bps :: u32
  assumes "bps \<noteq> 0"
    and "(unat base + unat off div unat bps) * unat bps + unat off mod unat bps < 2 ^ 32"
  shows "unat ((base + off div bps) * bps) + unat (off mod bps) = unat base * unat bps + unat off"
proof -
  have bpos: "0 < unat bps" using assms(1) by (simp add: unat_gt_0)
  have le1: "unat base + unat off div unat bps \<le> (unat base + unat off div unat bps) * unat bps"
    using bpos by simp
  have s: "unat base + unat off div unat bps < 2 ^ 32"
    using le1 assms(2) by linarith
  have a: "unat (base + off div bps) = unat base + unat off div unat bps"
    using s by (simp add: unat_add_lem [THEN iffD1] unat_div)
  have m: "unat ((base + off div bps) * bps) = (unat base + unat off div unat bps) * unat bps"
  proof -
    have "unat (base + off div bps) * unat bps < 2 ^ LENGTH(32)"
      using assms(2) a by simp
    then show ?thesis using a by (simp add: unat_mult_lem [THEN iffD1])
  qed
  have "unat (off mod bps) = unat off mod unat bps" by (simp add: unat_mod)
  then show ?thesis using m by (simp add: algebra_simps)
qed

lemma fat_entry_address_linear:
  assumes b: "BPB_BytsPerSec h \<noteq> 0"
    and ft: "ft = fat16_type \<or> ft = fat32_type"
    and fit: "(unat fatNum * unat (fat_get_FATSz h) + unat (BPB_RsvdSecCnt h)) *
                unat (BPB_BytsPerSec h) + unat N * (if ft = fat16_type then 2 else 4) < 2 ^ 32"
  shows "fat_entry_address h ft N fatNum =
           (unat fatNum * unat (fat_get_FATSz h) + unat (BPB_RsvdSecCnt h)) *
             unat (BPB_BytsPerSec h) + unat N * (if ft = fat16_type then 2 else 4)"
proof -
  define w :: nat where "w = (if ft = fat16_type then 2 else 4)"
  define bps :: u32 where "bps = ucast (BPB_BytsPerSec h)"
  define base :: u32 where "base = fatNum * fat_get_FATSz h + ucast (BPB_RsvdSecCnt h)"
  define off :: u32 where "off = FATOffset ft N"
  have ubps: "unat bps = unat (BPB_BytsPerSec h)" by (simp add: bps_def unat_ucast_16_32)
  have bps0: "bps \<noteq> 0" using b ubps by (metis unat_eq_zero)
  have bpos: "0 < unat bps" using bps0 by (simp add: unat_gt_0)
  let ?B = "unat fatNum * unat (fat_get_FATSz h) + unat (BPB_RsvdSecCnt h)"
  have fit': "?B * unat bps + unat N * w < 2 ^ 32" using fit by (simp add: w_def ubps)
  have "?B \<le> ?B * unat bps" using bpos by simp
  then have Bs: "?B < 2 ^ 32" and Ns: "unat N * w < 2 ^ 32" using fit' by linarith+
  have uoff: "unat off = unat N * w"
  proof (cases "ft = fat16_type")
    case True
    then have "unat N * unat (2::u32) < 2 ^ LENGTH(32)" using Ns by (simp add: w_def)
    then have "unat (N * 2) = unat N * unat (2::u32)" by (simp add: unat_mult_lem [THEN iffD1])
    then show ?thesis using True by (simp add: off_def FATOffset_def w_def)
  next
    case False
    then have "unat N * unat (4::u32) < 2 ^ LENGTH(32)" using Ns by (simp add: w_def)
    then have "unat (N * 4) = unat N * unat (4::u32)" by (simp add: unat_mult_lem [THEN iffD1])
    then show ?thesis using False by (simp add: off_def FATOffset_def w_def)
  qed
  have m1: "unat (fatNum * fat_get_FATSz h) = unat fatNum * unat (fat_get_FATSz h)"
  proof -
    have "unat fatNum * unat (fat_get_FATSz h) < 2 ^ LENGTH(32)" using Bs by simp
    then show ?thesis by (simp add: unat_mult_lem [THEN iffD1])
  qed
  have ubase: "unat base = ?B"
  proof -
    have "unat (fatNum * fat_get_FATSz h) + unat (ucast (BPB_RsvdSecCnt h) :: u32) < 2 ^ LENGTH(32)"
      using Bs m1 by (simp add: unat_ucast_16_32)
    then show ?thesis using m1 by (simp add: base_def unat_add_lem [THEN iffD1] unat_ucast_16_32)
  qed
  have "(unat base + unat off div unat bps) * unat bps + unat off mod unat bps =
        unat base * unat bps + unat off"
    by (simp add: algebra_simps)
  then have "(unat base + unat off div unat bps) * unat bps + unat off mod unat bps < 2 ^ 32"
    using fit' ubase uoff by simp
  from linear_address [OF bps0 this]
  have "unat ((base + off div bps) * bps) + unat (off mod bps) = unat base * unat bps + unat off" .
  then show ?thesis
    using ubase uoff ubps
    by (simp add: fat_entry_address_def ThisFATSecNum_def ThisFATEntOffset_def
        base_def off_def bps_def w_def)
qed

text \<open>
  Claim C6. For a FAT16 or FAT32 volume with a nonzero sector size and a FAT index below
  the number of FATs, the reader loads the entry of cluster \<open>N\<close> from sector
  \<open>f * fat_size + reserved + offset / bytes_per_sector\<close>, at \<open>offset mod bytes_per_sector\<close>
  within it, where \<open>offset\<close> is \<open>N * 2\<close> (FAT16) or \<open>N * 4\<close> (FAT32); it returns the 16-bit
  value zero-extended (so below \<open>2^16\<close>), or the 32-bit value masked with \<open>0x0FFFFFFF\<close>
  (so below \<open>2^28\<close>). On FAT12 it reaches \<open>NOT_REACHED\<close>. With \<open>fat_unknown\<close> it
  classifies the volume first and goes on with the type found. Where nothing wraps around,
  the address read is byte \<open>N * w\<close> of FAT number \<open>f\<close>.
\<close>

theorem fat_read_fat_entry_spec:
  assumes ft: "ft = fat16_type \<or> ft = fat32_type"
    and f: "fatNum < ucast (BPB_NumFATs (hdr v))"
    and b: "BPB_BytsPerSec (hdr v) \<noteq> 0"
  shows "(let off = N * (if ft = fat16_type then 2 else 4);
              bps = ucast (BPB_BytsPerSec (hdr v));
              sector = fatNum * fat_get_FATSz (hdr v) + ucast (BPB_RsvdSecCnt (hdr v)) + off div bps;
              a = unat (sector * bps) + unat (off mod bps)
          in fat_read_fat_entry v ft N fatNum =
               Inr (if ft = fat16_type then ucast (read_u16 (mem v) a)
                    else read_u32 (mem v) a AND 0x0FFFFFFF)) \<and>
         (\<exists>x. fat_read_fat_entry v ft N fatNum = Inr x \<and>
              (if ft = fat16_type then unat x < 2 ^ 16 else unat x < 2 ^ 28)) \<and>
         fat_read_fat_entry v fat12_type N fatNum = Inl NotReached \<and>
         fat_read_fat_entry v fat_unknown N fatNum =
           (case fat_get_type (hdr v) of Inl p \<Rightarrow> Inl p
            | Inr t \<Rightarrow> fat_read_fat_entry v t N fatNum) \<and>
         ((unat fatNum * unat (fat_get_FATSz (hdr v)) + unat (BPB_RsvdSecCnt (hdr v))) *
             unat (BPB_BytsPerSec (hdr v)) + unat N * (if ft = fat16_type then 2 else 4) < 2 ^ 32
          \<longrightarrow> fat_entry_address (hdr v) ft N fatNum =
              (unat fatNum * unat (fat_get_FATSz (hdr v)) + unat (BPB_RsvdSecCnt (hdr v))) *
                unat (BPB_BytsPerSec (hdr v)) + unat N * (if ft = fat16_type then 2 else 4))"
proof (intro conjI)
  show "let off = N * (if ft = fat16_type then 2 else 4);
            bps = ucast (BPB_BytsPerSec (hdr v));
            sector = fatNum * fat_get_FATSz (hdr v) + ucast (BPB_RsvdSecCnt (hdr v)) + off div bps;
            a = unat (sector * bps) + unat (off mod bps)
        in fat_read_fat_entry v ft N fatNum =
             Inr (if ft = fat16_type then ucast (read_u16 (mem v) a)
                  else read_u32 (mem v) a AND 0x0FFFFFFF)"
    using ft f b
    by (auto simp: fat_read_fat_entry_def fat_entry_address_def ThisFATSecNum_def
        ThisFATEntOffset_def FATOffset_def Let_def)
next
  show "\<exists>x. fat_read_fat_entry v ft N fatNum = Inr x \<and>
            (if ft = fat16_type then unat x < 2 ^ 16 else unat x < 2 ^ 28)"
  proof (cases "ft = fat16_type")
    case True
    then show ?thesis
      using f b ucast16_less by (simp add: fat_read_fat_entry_def)
  next
    case False
    then have "ft = fat32_type" using ft by simp
    moreover have "unat (x AND 0x0FFFFFFF) < 2 ^ 28" for x :: u32
      using mask28 [of x] by (simp add: word_less_nat_alt)
    ultimately show ?thesis using f b by (simp add: fat_read_fat_entry_def)
  qed
next
  show "fat_read_fat_entry v fat12_type N fatNum = Inl NotReached"
    by (simp add: fat_read_fat_entry_def)
next
  show "fat_read_fat_entry v fat_unknown N fatNum =
          (case fat_get_type (hdr v) of Inl p \<Rightarrow> Inl p
           | Inr t \<Rightarrow> fat_read_fat_entry v t N fatNum)"
  proof (cases "fat_get_type (hdr v)")
    case (Inl p)
    then show ?thesis by (simp add: fat_read_fat_entry_def)
  next
    case (Inr t)
    then have "t \<noteq> fat_unknown"
      by (auto simp: fat_get_type_def split: sum.splits if_splits)
    then show ?thesis using Inr by (simp add: fat_read_fat_entry_def)
  qed
next
  show "(unat fatNum * unat (fat_get_FATSz (hdr v)) + unat (BPB_RsvdSecCnt (hdr v))) *
           unat (BPB_BytsPerSec (hdr v)) + unat N * (if ft = fat16_type then 2 else 4) < 2 ^ 32
        \<longrightarrow> fat_entry_address (hdr v) ft N fatNum =
            (unat fatNum * unat (fat_get_FATSz (hdr v)) + unat (BPB_RsvdSecCnt (hdr v))) *
              unat (BPB_BytsPerSec (hdr v)) + unat N * (if ft = fat16_type then 2 else 4)"
    using fat_entry_address_linear [OF b ft] by blast
qed

theorem fat_read_fat_entry_spec_witness:
  "fat_read_fat_entry vol16 fat16_type 4 0 = Inr 6 \<and>
   fat_entry_address (hdr vol16) fat16_type 4 0 = 520 \<and>
   fat_read_fat_entry vol16 fat12_type 4 0 = Inl NotReached \<and>
   fat_read_fat_entry vol16 fat_unknown 4 0 = Inr 6"
proof -
  have f: "(0::u32) < ucast (BPB_NumFATs (hdr vol16))" by code_simp
  have b: "BPB_BytsPerSec (hdr vol16) \<noteq> 0" by code_simp
  have fit: "(unat (0::u32) * unat (fat_get_FATSz (hdr vol16)) + unat (BPB_RsvdSecCnt (hdr vol16))) *
             unat (BPB_BytsPerSec (hdr vol16)) + unat (4::u32) * (if fat16_type = fat16_type then 2 else 4)
             = 520" by code_simp
  have t: "fat_get_type (hdr vol16) = Inr fat16_type" by code_simp
  have v: "fat_read_fat_entry vol16 fat16_type 4 0 = Inr 6" by code_simp
  note s = fat_read_fat_entry_spec [where v = vol16 and ft = fat16_type and N = 4 and fatNum = 0,
      OF _ f b, simplified]
  from s have a: "fat_entry_address (hdr vol16) fat16_type 4 0 = 520"
    using fit by simp
  from s have n: "fat_read_fat_entry vol16 fat12_type 4 0 = Inl NotReached" by simp
  from s t have u: "fat_read_fat_entry vol16 fat_unknown 4 0 = fat_read_fat_entry vol16 fat16_type 4 0"
    by simp
  show ?thesis using v a n u by simp
qed

section \<open>The return value of the walker\<close>

lemma walk_clusters_returns_zero:
  "walk_clusters fuel cb v ft entry cluster ctx arg = Some (Inr (r, ctx', arg')) \<Longrightarrow> r = 0"
proof (induction fuel arbitrary: entry cluster ctx arg)
  case 0
  then show ?case by simp
next
  case (Suc fuel)
  then show ?case
    by (auto split: sum.splits option.splits if_splits prod.splits)
qed

text \<open>
  Claim C9. Whenever \<open>fat_walk_directory\<close> returns, it returns 0: at the end-of-entries
  mark, after a callback asked for a stop, when the flat FAT16 root has been scanned, and at
  the end of the cluster chain alike. The value tells the caller neither why the walk ended
  nor that anything went wrong.
\<close>

theorem fat_walk_directory_returns_zero:
  assumes "fat_walk_directory fuel ctx v ft entry cluster cb arg = Some (Inr (r, ctx', arg'))"
  shows "r = 0"
  using assms walk_clusters_returns_zero
  by (fastforce simp: fat_walk_directory_def split: if_splits)

theorem fat_walk_directory_returns_zero_witness:
  "walk_return (fat_walk_directory 1 zeroed_walk_ctx vol16 fat16_type (Some 10752) 0 stop_cb ())
   = Some (Inr 0)"
proof -
  have "case fat_walk_directory 1 zeroed_walk_ctx vol16 fat16_type (Some 10752) 0 stop_cb () of
          Some (Inr x) \<Rightarrow> True | Some (Inl p) \<Rightarrow> False | None \<Rightarrow> False"
    by code_simp
  then obtain r c a where
    h: "fat_walk_directory 1 zeroed_walk_ctx vol16 fat16_type (Some 10752) 0 stop_cb ()
        = Some (Inr (r, c, a))"
    by (auto split: option.splits sum.splits)
  from fat_walk_directory_returns_zero [OF h] have "r = 0" .
  with h show ?thesis by (simp add: walk_return_def)
qed

text \<open>
  The four ways out, each taken on the example volume: the end-of-entries mark of the root
  directory, the stop asked for by the callback (shown just above), a flat root whose
  sixteen slots are all skipped, and a chain of two clusters whose slots are all skipped
  (one cluster is not enough to reach its end).
\<close>

lemma walk_exit_no_more_entries:
  "walk_return (fat_walk_directory 1 zeroed_walk_ctx vol16 fat16_type (Some 10752) 0 record_cb [])
   = Some (Inr 0)"
  by code_simp

lemma root_delivered:
  "delivered 1 vol16 fat16_type (Some 10752) 0 =
     Some [(10784, None), (10848, Some (ascii ''ReadMe.md'')), (10880, None)]"
  by code_simp

lemma walk_exit_flat_root_exhausted:
  "walk_return (fat_walk_directory 1 zeroed_walk_ctx vol16_labels fat16_type (Some 10752) 0 record_cb [])
   = Some (Inr 0)"
  by code_simp

lemma walk_exit_end_of_chain:
  "walk_return (fat_walk_directory 1 zeroed_walk_ctx vol16_labels fat16_type None 4 record_cb []) = None \<and>
   walk_return (fat_walk_directory 2 zeroed_walk_ctx vol16_labels fat16_type None 4 record_cb [])
   = Some (Inr 0)"
  by code_simp

section \<open>Slots that end a directory\<close>

text \<open>
  Claim C1, as the code has it. A slot that is neither a long-name slot nor a volume label
  and whose first name byte is \<open>0x00\<close> or \<open>0xE5\<close> ends the iteration: the loop over
  \<open>Suc (k + m)\<close> slots with such a slot at position \<open>k\<close> gives what the loop over the
  first \<open>k\<close> slots gives, and returns from inside the loop. No callback is made for that
  slot or for any slot after it, whatever the callback is.
\<close>

theorem walk_entries_ends_at_0x00_or_0xE5:
  assumes "\<not> is_long_name_entry (slot_at v (entry + 32 * (i + k)))"
    and "\<not> volume_id (slot_at v (entry + 32 * (i + k)))"
    and "DIR_Name (slot_at v (entry + 32 * (i + k))) ! 0 = 0x00 \<or>
         DIR_Name (slot_at v (entry + 32 * (i + k))) ! 0 = 0xE5"
  shows "walk_entries cb v ft entry (Suc (k + m)) i ctx arg =
           (case walk_entries cb v ft entry k i ctx arg of
              Inl p \<Rightarrow> Inl p
            | Inr (r, c, a) \<Rightarrow> Inr (True, c, a))"
  using assms
proof (induction k arbitrary: i ctx arg)
  case 0
  then show ?case by (auto simp: Let_def)
next
  case (Suc k)
  have s: "Suc i + k = i + Suc k" by simp
  note IH = Suc.IH [of "Suc i", unfolded s, OF Suc.prems]
  have l: "walk_entries cb v ft entry (Suc (Suc k + m)) i ctx arg =
           (let e = slot_at v (entry + 32 * i) in
            if is_long_name_entry e
              then (case fat_handle_long_dir_entry ctx e of
                      Inl p \<Rightarrow> Inl p
                    | Inr ctx1 \<Rightarrow> walk_entries cb v ft entry (Suc (k + m)) (Suc i) ctx1 arg)
            else if volume_id e
              then walk_entries cb v ft entry (Suc (k + m)) (Suc i) ctx arg
            else if DIR_Name e ! 0 = 0x00 then Inr (True, ctx, arg)
            else if DIR_Name e ! 0 = 0xE5 then Inr (True, ctx, arg)
            else (case long_name_ptr ctx e of
                    Inl p \<Rightarrow> Inl p
                  | Inr (ln, ctx1) \<Rightarrow>
                      (case cb v ft (entry + 32 * i) ln arg of
                         Inl p \<Rightarrow> Inl p
                       | Inr (ret, arg') \<Rightarrow>
                           (let ctx' = ctx1\<lparr>lname_sz := 0, lname_chksum := -1\<rparr>
                            in if ret \<noteq> 0 then Inr (True, ctx', arg')
                               else walk_entries cb v ft entry (Suc (k + m)) (Suc i) ctx' arg'))))"
    by (simp only: add_Suc walk_entries.simps(2))
  show ?case
    unfolding l walk_entries.simps(2) [of cb v ft entry k i ctx arg]
    by (simp add: IH Let_def del: walk_entries.simps split: sum.splits prod.splits)
qed

theorem walk_entries_ends_at_0x00_or_0xE5_witness:
  "DIR_Name (slot_at vol16 (11264 + 32 * (0 + 1))) ! 0 = 0xE5 \<and>
   map_sum id (\<lambda>x. (fst x, snd (snd x)))
     (walk_entries record_cb vol16 fat16_type 11264 (Suc (1 + 14)) 0 zeroed_walk_ctx [])
   = Inr (True, [(11264, None)])"
proof -
  have a: "\<not> is_long_name_entry (slot_at vol16 (11264 + 32 * (0 + 1)))"
    and b: "\<not> volume_id (slot_at vol16 (11264 + 32 * (0 + 1)))"
    and c: "DIR_Name (slot_at vol16 (11264 + 32 * (0 + 1))) ! 0 = 0xE5"
    by code_simp+
  have d: "map_sum id (\<lambda>x. snd (snd x))
             (walk_entries record_cb vol16 fat16_type 11264 1 0 zeroed_walk_ctx [])
           = Inr [(11264, None)]"
    by code_simp
  then obtain r c' where
    e: "walk_entries record_cb vol16 fat16_type 11264 1 0 zeroed_walk_ctx [] = Inr (r, c', [(11264, None)])"
    by (cases "walk_entries record_cb vol16 fat16_type 11264 1 0 zeroed_walk_ctx []")
       (auto simp del: walk_entries.simps)
  have t: "walk_entries record_cb vol16 fat16_type 11264 (Suc (1 + 14)) 0 zeroed_walk_ctx [] =
           Inr (True, c', [(11264, None)])"
    unfolding walk_entries_ends_at_0x00_or_0xE5 [where v = vol16 and entry = 11264 and i = 0
      and k = 1 and m = 14 and cb = record_cb and ft = fat16_type and ctx = zeroed_walk_ctx
      and arg = "[]", OF a b disjI2 [OF c]] e
    by simp
  show ?thesis unfolding t using c by simp
qed

text \<open>
  In the directory \<open>SUB\<close> of the example volume a deleted slot stands between \<open>DATA.BIN\<close>
  and \<open>AFTER.TXT\<close>; the walk delivers \<open>DATA.BIN\<close> alone.
\<close>

theorem deleted_slot_counterexample:
  "DIR_Name (slot_at vol16 11264) ! 0 = 0x44 \<and>
   DIR_Name (slot_at vol16 11296) ! 0 = 0xE5 \<and>
   DIR_Name (slot_at vol16 11328) ! 0 = 0x41 \<and>
   \<not> is_long_name_entry (slot_at vol16 11328) \<and> \<not> volume_id (slot_at vol16 11328) \<and>
   delivered 1 vol16 fat16_type None 2 = Some [(11264, None)]"
  by code_simp

section \<open>Fetching a path component\<close>

lemma fetch_chars_spec:
  "fetch_chars p buf l = (p', buf', l') \<Longrightarrow>
   l' = l + length (takeWhile (\<lambda>c. c \<noteq> 0 \<and> c \<noteq> 0x2F) p) \<and>
   p' = dropWhile (\<lambda>c. c \<noteq> 0 \<and> c \<noteq> 0x2F) p \<and>
   map buf' [l..<l'] = takeWhile (\<lambda>c. c \<noteq> 0 \<and> c \<noteq> 0x2F) p \<and>
   (\<forall>j. j < l \<or> l' \<le> j \<longrightarrow> buf' j = buf j)"
proof (induction p arbitrary: buf l)
  case Nil
  then show ?case by simp
next
  case (Cons c p)
  show ?case
  proof (cases "c \<noteq> 0 \<and> c \<noteq> 0x2F")
    case True
    with Cons.prems have r: "fetch_chars p (buf(l := c)) (Suc l) = (p', buf', l')" by simp
    note IH = Cons.IH [OF r]
    from IH have le: "Suc l \<le> l'" by simp
    have "buf' l = c" using IH by simp
    moreover have "[l..<l'] = l # [Suc l..<l']" using le by (simp add: upt_conv_Cons)
    ultimately show ?thesis using IH True by auto
  next
    case False
    with Cons.prems show ?thesis by auto
  qed
qed

lemma takeWhile_nonzero:
  "\<forall>c \<in> set xs. c \<noteq> 0 \<Longrightarrow> takeWhile (\<lambda>c. c \<noteq> 0) (xs @ 0 # ys) = (xs :: u8 list)"
  by (induction xs) auto

lemma map_fun_upd_outside: "j \<notin> set xs \<Longrightarrow> map (f(j := v)) xs = map f xs"
  by (induction xs) auto

lemma c_string_terminated:
  assumes "\<forall>c \<in> set (map buf [0..<l]). c \<noteq> 0" and "buf l = 0"
  shows "c_string buf (Suc l) = map buf [0..<l]"
proof -
  have "takeWhile (\<lambda>c. c \<noteq> 0) (map buf [0..<l] @ [0]) = map buf [0..<l]"
    using assms(1) by (rule takeWhile_nonzero)
  then show ?thesis using assms(2) by (simp add: c_string_def c_string_of_def)
qed

lemma fetch_component:
  assumes "pcl ctx = 0"
  shows "\<exists>ctx1. fat_fetch_next_component ctx = Inr (True, ctx1) \<and>
           1 \<le> pcl ctx1 \<and> pc ctx1 (pcl ctx1 - 1) = 0 \<and>
           pcl ctx1 = Suc (length (current_component ctx)) \<and>
           c_string (pc ctx1) (pcl ctx1) = current_component ctx \<and>
           path ctx1 = dropWhile (\<lambda>c. c \<noteq> 0 \<and> c \<noteq> 0x2F) (path ctx) \<and>
           ctx1 = ctx\<lparr>path := path ctx1, pc := pc ctx1, pcl := pcl ctx1\<rparr>"
proof -
  obtain p' buf' l' where f: "fetch_chars (path ctx) (pc ctx) 0 = (p', buf', l')"
    by (cases "fetch_chars (path ctx) (pc ctx) 0") auto
  note s = fetch_chars_spec [OF f]
  let ?comp = "takeWhile (\<lambda>c. c \<noteq> 0 \<and> c \<noteq> 0x2F) (path ctx)"
  have m: "map buf' [0..<l'] = ?comp" using s by blast
  have nz: "\<forall>c \<in> set (map (buf'(l' := 0)) [0..<l']). c \<noteq> 0"
  proof -
    have "map (buf'(l' := 0)) [0..<l'] = ?comp" using m by (simp add: map_fun_upd_outside)
    moreover have "\<forall>c \<in> set ?comp. c \<noteq> 0" by (auto dest: set_takeWhileD)
    ultimately show ?thesis by simp
  qed
  have cs: "c_string (buf'(l' := 0)) (Suc l') = ?comp"
    using c_string_terminated [OF nz] m by (simp add: map_fun_upd_outside)
  show ?thesis
    using assms f s cs
    by (simp add: fat_fetch_next_component_def current_component_def)
qed

text \<open>
  Claim C10. \<open>fat_fetch_next_component\<close> returns true whenever it returns: it writes the
  terminator at \<open>pc[pcl]\<close> and counts it, so \<open>pcl\<close> is at least 1 afterwards, and exactly
  1 when the path cursor is at the end of the string. Hence the callback, entered with no
  component held, always goes on to compare the entry with the fetched component; its
  branch for a failed fetch is never taken.
\<close>

theorem fat_fetch_next_component_true:
  "(\<forall>b ctx1. fat_fetch_next_component ctx = Inr (b, ctx1) \<longrightarrow>
       b \<and> 1 \<le> pcl ctx1 \<and> pc ctx1 (pcl ctx1 - 1) = 0) \<and>
   (pcl ctx = 0 \<longrightarrow>
      (\<exists>ctx1. fat_fetch_next_component ctx = Inr (True, ctx1) \<and>
             (path ctx = [] \<longrightarrow> pcl ctx1 = 1) \<and>
             fat_search_entry_cb v ft entry long_name ctx =
               search_cb_compare v entry long_name ctx1))"
proof (intro conjI allI impI)
  fix b ctx1
  assume a: "fat_fetch_next_component ctx = Inr (b, ctx1)"
  then have "pcl ctx = 0" by (auto simp: fat_fetch_next_component_def split: if_splits)
  from fetch_component [OF this] a
  show "b" and "1 \<le> pcl ctx1" and "pc ctx1 (pcl ctx1 - 1) = 0" by auto
next
  assume z: "pcl ctx = 0"
  from fetch_component [OF z] obtain ctx1 where
    f: "fat_fetch_next_component ctx = Inr (True, ctx1)"
    and l: "pcl ctx1 = Suc (length (current_component ctx))" by blast
  have "path ctx = [] \<longrightarrow> pcl ctx1 = 1"
    using l z by (simp add: current_component_def)
  moreover have "fat_search_entry_cb v ft entry long_name ctx = search_cb_compare v entry long_name ctx1"
    using z f by (simp add: fat_search_entry_cb_def)
  ultimately show "\<exists>ctx1. fat_fetch_next_component ctx = Inr (True, ctx1) \<and>
             (path ctx = [] \<longrightarrow> pcl ctx1 = 1) \<and>
             fat_search_entry_cb v ft entry long_name ctx =
               search_cb_compare v entry long_name ctx1"
    using f by blast
qed

theorem fat_fetch_next_component_true_witness:
  "pcl (fat_init_search_ctx [] False) = 0 \<and> path (fat_init_search_ctx [] False) = [] \<and>
   map_sum id (\<lambda>x. (fst x, pcl (snd x)))
     (fat_fetch_next_component (fat_init_search_ctx [] False)) = Inr (True, 1)"
proof -
  have z: "pcl (fat_init_search_ctx [] False) = 0" and e: "path (fat_init_search_ctx [] False) = []"
    by (simp_all add: fat_init_search_ctx_def)
  from fat_fetch_next_component_true [of "fat_init_search_ctx [] False"] z e
  obtain ctx1 where "fat_fetch_next_component (fat_init_search_ctx [] False) = Inr (True, ctx1)"
    and "pcl ctx1 = 1" by blast
  then show ?thesis using z e by simp
qed

section \<open>How the search callback compares names\<close>

lemma search_cb_matched_stops:
  "search_cb_matched e entry ctx = Inr (r, ctx') \<Longrightarrow> r = -1"
  by (auto simp: search_cb_matched_def Let_def split: if_splits)

lemma search_cb_compare_rule:
  assumes "search_cb_compare v entry long_name ctx = Inr (r, ctx')"
  shows "(r = 0 \<longleftrightarrow>
            (case long_name of
               Some l \<Rightarrow> l \<noteq> c_string (pc ctx) (pcl ctx)
             | None \<Rightarrow> map tolower (c_string_of (fat_get_short_name (slot_at v entry)))
                        \<noteq> map tolower (c_string (pc ctx) (pcl ctx)))) \<and>
         (r = 0 \<or> r = -1)"
proof (cases long_name)
  case None
  show ?thesis
  proof (cases "map tolower (c_string_of (fat_get_short_name (slot_at v entry)))
                = map tolower (c_string (pc ctx) (pcl ctx))")
    case True
    with assms None have
      "search_cb_matched (slot_at v entry) entry
         (ctx\<lparr>shortname := fat_get_short_name (slot_at v entry)\<rparr>) = Inr (r, ctx')"
      by (simp add: search_cb_compare_def stricmp_def Let_def)
    from search_cb_matched_stops [OF this] True None show ?thesis by simp
  next
    case False
    with assms None show ?thesis
      by (simp add: search_cb_compare_def stricmp_def Let_def)
  qed
next
  case (Some l)
  show ?thesis
  proof (cases "l = c_string (pc ctx) (pcl ctx)")
    case True
    with assms Some have "search_cb_matched (slot_at v entry) entry ctx = Inr (r, ctx')"
      by (simp add: search_cb_compare_def strcmp_def)
    from search_cb_matched_stops [OF this] True Some show ?thesis by simp
  next
    case False
    with assms Some show ?thesis by (simp add: search_cb_compare_def strcmp_def)
  qed
qed

text \<open>
  Claim C3, as the code has it. The callback lets the walk continue (returns 0) exactly when
  the name does not match the current path component, and stops it with \<open>-1\<close> otherwise.
  With a long name the match is equality of the long name and the component; the short
  name is not looked at. Without a long name the match is equality of the decoded short
  name and the component after lowering the case of both.
\<close>

theorem search_cb_comparison:
  assumes "fat_search_entry_cb v ft entry long_name ctx = Inr (r, ctx')"
  shows "(r = 0 \<longleftrightarrow>
            (case long_name of
               Some l \<Rightarrow> l \<noteq> current_component ctx
             | None \<Rightarrow> map tolower (c_string_of (fat_get_short_name (slot_at v entry)))
                        \<noteq> map tolower (current_component ctx))) \<and>
         (r = 0 \<or> r = -1)"
proof (cases "pcl ctx = 0")
  case True
  from fetch_component [OF True] obtain ctx1 where
    f: "fat_fetch_next_component ctx = Inr (True, ctx1)"
    and c: "c_string (pc ctx1) (pcl ctx1) = current_component ctx" by blast
  from assms True f have "search_cb_compare v entry long_name ctx1 = Inr (r, ctx')"
    by (simp add: fat_search_entry_cb_def)
  from search_cb_compare_rule [OF this, unfolded c] show ?thesis .
next
  case False
  with assms have "search_cb_compare v entry long_name ctx = Inr (r, ctx')"
    by (simp add: fat_search_entry_cb_def)
  moreover have "c_string (pc ctx) (pcl ctx) = current_component ctx"
    using False by (simp add: current_component_def)
  ultimately show ?thesis using search_cb_compare_rule by metis
qed

theorem search_cb_comparison_witness:
  "map_sum id fst
     (fat_search_entry_cb vol16 fat16_type 10848 (Some (ascii ''ReadMe.md''))
        (fat_init_search_ctx (ascii ''README~1.MD'') False)) = Inr 0 \<and>
   ascii ''ReadMe.md'' \<noteq> current_component (fat_init_search_ctx (ascii ''README~1.MD'') False) \<and>
   c_string_of (fat_get_short_name (slot_at vol16 10848)) =
     current_component (fat_init_search_ctx (ascii ''README~1.MD'') False)"
proof -
  have e: "map_sum id fst
     (fat_search_entry_cb vol16 fat16_type 10848 (Some (ascii ''ReadMe.md''))
        (fat_init_search_ctx (ascii ''README~1.MD'') False)) = Inr 0"
    by code_simp
  then obtain ctx' where
    h: "fat_search_entry_cb vol16 fat16_type 10848 (Some (ascii ''ReadMe.md''))
          (fat_init_search_ctx (ascii ''README~1.MD'') False) = Inr (0, ctx')"
    by (cases "fat_search_entry_cb vol16 fat16_type 10848 (Some (ascii ''ReadMe.md''))
          (fat_init_search_ctx (ascii ''README~1.MD'') False)") auto
  from search_cb_comparison [OF h]
  have n: "ascii ''ReadMe.md'' \<noteq> current_component (fat_init_search_ctx (ascii ''README~1.MD'') False)"
    by simp
  have s: "c_string_of (fat_get_short_name (slot_at vol16 10848)) =
     current_component (fat_init_search_ctx (ascii ''README~1.MD'') False)"
    by code_simp
  show ?thesis using e n s by simp
qed

text \<open>
  The file \<open>ReadMe.md\<close> of the example volume is delivered with its long name. A lookup by
  its alias \<open>README~1.MD\<close> finds nothing, although the alias is the decoded short name of
  the entry.
\<close>

theorem short_alias_lookup_counterexample:
  "delivered 1 vol16 fat16_type (Some 10752) 0 =
     Some [(10784, None), (10848, Some (ascii ''ReadMe.md'')), (10880, None)] \<and>
   c_string_of (fat_get_short_name (slot_at vol16 10848)) = ascii ''README~1.MD'' \<and>
   fat_search_entry 5 vol16 fat_unknown (ascii ''/README~1.MD'') 0 = Some (Inr (None, -2))"
proof -
  have "c_string_of (fat_get_short_name (slot_at vol16 10848)) = ascii ''README~1.MD'' \<and>
   fat_search_entry 5 vol16 fat_unknown (ascii ''/README~1.MD'') 0 = Some (Inr (None, -2))"
    by code_simp
  then show ?thesis using root_delivered by blast
qed

lemma long_name_lookup_is_case_sensitive:
  "fat_search_entry 5 vol16 fat_unknown (ascii ''/ReadMe.md'') 0 = Some (Inr (Some 10848, 0)) \<and>
   fat_search_entry 5 vol16 fat_unknown (ascii ''/readme.md'') 0 = Some (Inr (None, -2))"
  by code_simp

lemma short_name_lookup_ignores_case:
  "fat_search_entry 5 vol16 fat_unknown (ascii ''/HELLO.TXT'') 0 = Some (Inr (Some 10784, 0)) \<and>
   fat_search_entry 5 vol16 fat_unknown (ascii ''/HeLLo.txt'') 0 = Some (Inr (Some 10784, 0))"
  by code_simp

section \<open>Long names handed to the callback\<close>

subsection \<open>The characters of one slot\<close>

lemma scan_units_scan_of: "scan_units bs acc = scan_of acc (units bs)"
proof (induction bs acc rule: scan_units.induct)
  case (1 c h rest entrybuf)
  show ?case
  proof (cases "h \<noteq> 0 \<or> c = 0 \<or> c = 0xFF")
    case True
    then show ?thesis by (auto simp: scan_of_def unit_is_char_def)
  next
    case False
    then have "scan_units rest (entrybuf @ [c]) = scan_of (entrybuf @ [c]) (units rest)"
      using 1 by simp
    moreover have "scan_of entrybuf ((c, h) # units rest) = scan_of (entrybuf @ [c]) (units rest)"
      using False
      by (cases "dropWhile unit_is_char (units rest)")
         (simp_all add: scan_of_def unit_is_char_def del: dropWhile_eq_Nil_conv)
    ultimately show ?thesis using False by simp
  qed
qed (simp_all add: scan_of_def)

lemma scan_of_append:
  "(case scan_of acc us of Invalid \<Rightarrow> Invalid | AtEnd b \<Rightarrow> AtEnd b | Cont b \<Rightarrow> scan_of b vs)
   = scan_of acc (us @ vs)"
proof (cases "dropWhile unit_is_char us")
  case Nil
  then have all: "\<forall>u \<in> set us. unit_is_char u" by (simp add: dropWhile_eq_Nil_conv)
  then have d: "dropWhile unit_is_char (us @ vs) = dropWhile unit_is_char vs"
    and t: "takeWhile unit_is_char (us @ vs) = us @ takeWhile unit_is_char vs"
    by (simp_all add: dropWhile_append2 takeWhile_append2)
  have a: "scan_of acc us = Cont (acc @ map fst us)"
    using Nil by (simp add: scan_of_def del: dropWhile_eq_Nil_conv)
  have b: "scan_of acc (us @ vs) = scan_of (acc @ map fst us) vs"
    unfolding scan_of_def d t
    by (cases "dropWhile unit_is_char vs") (simp_all del: dropWhile_eq_Nil_conv)
  show ?thesis by (simp add: a b)
next
  case (Cons u rest)
  then obtain w where w: "w \<in> set us" "\<not> unit_is_char w"
    by (metis dropWhile_eq_Nil_conv list.distinct(1))
  have "dropWhile unit_is_char (us @ vs) = dropWhile unit_is_char us @ vs"
    and "takeWhile unit_is_char (us @ vs) = takeWhile unit_is_char us"
    using w by (rule dropWhile_append1, rule takeWhile_append1)
  then show ?thesis using Cons by (simp add: scan_of_def del: dropWhile_eq_Nil_conv)
qed

text \<open>
  The characters of a slot: the low bytes of its units up to the first unit that is no
  character, provided that unit, if there is one, has a zero high byte. Units behind it
  are not looked at.
\<close>

lemma slot_chars_units:
  "slot_chars le =
     (case dropWhile unit_is_char (slot_units le) of
        [] \<Rightarrow> Some (map fst (slot_units le))
      | u # rest \<Rightarrow> if snd u \<noteq> 0 then None
                    else Some (map fst (takeWhile unit_is_char (slot_units le))))"
proof -
  let ?A = "units (take 10 (LDIR_Name1 le))"
  let ?B = "units (take 12 (LDIR_Name2 le))"
  let ?C = "units (take 4 (LDIR_Name3 le))"
  have "scan_slot le =
          (case scan_of [] ?A of Invalid \<Rightarrow> Invalid | AtEnd b \<Rightarrow> AtEnd b
           | Cont b \<Rightarrow> (case scan_of b ?B of Invalid \<Rightarrow> Invalid | AtEnd b \<Rightarrow> AtEnd b
                        | Cont b \<Rightarrow> scan_of b ?C))"
    unfolding scan_slot_def scan_units_scan_of ..
  also have "\<dots> = (case scan_of [] ?A of Invalid \<Rightarrow> Invalid | AtEnd b \<Rightarrow> AtEnd b
                     | Cont b \<Rightarrow> scan_of b (?B @ ?C))"
    unfolding scan_of_append ..
  also have "\<dots> = scan_of [] (?A @ ?B @ ?C)" by (rule scan_of_append)
  finally have "scan_slot le = scan_of [] (slot_units le)" by (simp add: slot_units_def)
  then show ?thesis
    by (cases "dropWhile unit_is_char (slot_units le)")
       (simp_all add: slot_chars_def scan_of_def del: dropWhile_eq_Nil_conv)
qed

lemma slot_chars_Some:
  assumes "slot_chars le = Some b"
  shows "b = map fst (takeWhile unit_is_char (slot_units le)) \<and>
         (\<forall>u \<in> set (takeWhile unit_is_char (slot_units le)). snd u = 0) \<and>
         (dropWhile unit_is_char (slot_units le) \<noteq> [] \<longrightarrow>
            snd (hd (dropWhile unit_is_char (slot_units le))) = 0)"
proof -
  have z: "\<forall>u \<in> set (takeWhile unit_is_char (slot_units le)). snd u = 0"
    by (auto dest: set_takeWhileD simp: unit_is_char_def)
  show ?thesis
  proof (cases "dropWhile unit_is_char (slot_units le)")
    case Nil
    then have t: "takeWhile unit_is_char (slot_units le) = slot_units le"
      by (simp add: takeWhile_eq_all_conv)
    from assms Nil have "b = map fst (slot_units le)" by (simp add: slot_chars_units)
    with Nil z show ?thesis unfolding t by (simp del: dropWhile_eq_Nil_conv)
  next
    case (Cons u rest)
    with assms z show ?thesis by (auto simp: slot_chars_units split: if_splits)
  qed
qed

subsection \<open>The accumulated name\<close>




text \<open>Pushing valid characters that do not fit the buffer stores past its end.\<close>

lemma push_chars_overrun:
  assumes "\<forall>c \<in> set cs. fat32_is_valid_filename_character c"
    and "LNAME_BUF_SIZE < lname_sz ctx + length cs"
    and "lname_sz ctx \<le> LNAME_BUF_SIZE"
  shows "push_chars ctx cs = Inl BufferOverrun"
  using assms
proof (induction cs arbitrary: ctx)
  case Nil
  then show ?case by simp
next
  case (Cons c cs)
  show ?case
  proof (cases "lname_sz ctx < LNAME_BUF_SIZE")
    case False
    then show ?thesis using Cons.prems(1) by simp
  next
    case True
    let ?ctx1 = "ctx\<lparr>lname_buf := (lname_buf ctx)(lname_sz ctx := c), lname_sz := Suc (lname_sz ctx)\<rparr>"
    have "\<forall>c \<in> set cs. fat32_is_valid_filename_character c"
      and "LNAME_BUF_SIZE < lname_sz ?ctx1 + length cs"
      and "lname_sz ?ctx1 \<le> LNAME_BUF_SIZE"
      using Cons.prems True by simp_all
    from Cons.IH [OF this] show ?thesis using True Cons.prems(1) by simp
  qed
qed

lemma last_run_Nil: "last_run K [] = []"
  by (simp add: last_run_def)

lemma last_run_snoc:
  "last_run K (ls @ [le]) = (if LDIR_Chksum le = K then last_run K ls @ [le] else [])"
  by (simp add: last_run_def)


lemma last_run_chksum: "s \<in> set (last_run K ls) \<Longrightarrow> LDIR_Chksum s = K"
  by (auto simp: last_run_def dest: set_takeWhileD)

lemma last_run_suffix: "\<exists>pre. ls = pre @ last_run K ls \<and> (pre = [] \<or> LDIR_Chksum (last pre) \<noteq> K)"
proof (induction ls rule: rev_induct)
  case Nil
  then show ?case by (simp add: last_run_Nil)
next
  case (snoc le ls)
  then obtain pre where "ls = pre @ last_run K ls" and "pre = [] \<or> LDIR_Chksum (last pre) \<noteq> K"
    by blast
  then show ?case
    by (cases "LDIR_Chksum le = K") (auto simp: last_run_snoc)
qed



lemma scanned_chars:
  "slot_chars le = None \<Longrightarrow> scan_slot le = Invalid"
  "slot_chars le = Some b \<Longrightarrow> scan_slot le = AtEnd b \<or> scan_slot le = Cont b"
  by (auto simp: slot_chars_def split: scan.splits)





text \<open>Slots that hold fewer characters in all than the buffer has bytes fit the buffer.\<close>

lemma runs_fit_total:
  assumes "sum_list (map slot_len ls) < LNAME_BUF_SIZE"
  shows "runs_fit ls"
proof -
  have "sum_list (map slot_len (last_run (LDIR_Chksum (ls ! n)) (take (Suc n) ls)))
          < LNAME_BUF_SIZE" for n
  proof -
    obtain pre where p: "take (Suc n) ls = pre @ last_run (LDIR_Chksum (ls ! n)) (take (Suc n) ls)"
      using last_run_suffix [of "take (Suc n) ls" "LDIR_Chksum (ls ! n)"] by blast
    have "sum_list (map slot_len (take (Suc n) ls)) =
            sum_list (map slot_len pre) +
            sum_list (map slot_len (last_run (LDIR_Chksum (ls ! n)) (take (Suc n) ls)))"
      by (subst p) simp
    moreover have "sum_list (map slot_len ls) =
            sum_list (map slot_len (take (Suc n) ls)) + sum_list (map slot_len (drop (Suc n) ls))"
      by (metis append_take_drop_id map_append sum_list.append)
    ultimately show ?thesis using assms by linarith
  qed
  then show ?thesis by (simp add: runs_fit_def)
qed

text \<open>A well-formed slot that does not fit an accumulated valid run stores past the end.\<close>

lemma handle_overrun:
  assumes "is_valid ctx" and "lname_chksum ctx = uint (LDIR_Chksum le)" and "slot_ok le"
    and "LNAME_BUF_SIZE < lname_sz ctx + slot_len le" and "lname_sz ctx \<le> LNAME_BUF_SIZE"
  shows "fat_handle_long_dir_entry ctx le = Inl BufferOverrun"
proof -
  from assms(3) obtain b where b: "slot_chars le = Some b"
    and v: "\<forall>c \<in> set (rev b). fat32_is_valid_filename_character c"
    by (auto simp: slot_ok_def slot_text_def)
  have "fat_handle_long_dir_entry ctx le = push_chars ctx (rev b)"
    using assms(1,2) scanned_chars(2) [OF b]
    by (auto simp: fat_handle_long_dir_entry_def Let_def)
  moreover have "LNAME_BUF_SIZE < lname_sz ctx + length (rev b)"
    using assms(4) b by (simp add: slot_len_def slot_text_def)
  ultimately show ?thesis using push_chars_overrun [OF v _ assms(5)] by simp
qed








section \<open>Reading a whole file\<close>

lemma memmove_length:
  "off + n \<le> length dest \<Longrightarrow> length (memmove dest off m data n) = length dest"
  by (simp add: memmove_def)

lemma memmove_nth:
  assumes "off + n \<le> length dest" and "i < length dest"
  shows "memmove dest off m data n ! i =
           (if off \<le> i \<and> i < off + n then m (data + (i - off)) else dest ! i)"
proof -
  consider "i < off" | "off \<le> i" "i < off + n" | "off + n \<le> i" by linarith
  then show ?thesis
  proof cases
    case 1
    then show ?thesis using assms by (simp add: memmove_def nth_append)
  next
    case 2
    then have "i - off < n" by linarith
    then show ?thesis using 2 assms by (simp add: memmove_def nth_append)
  next
    case 3
    then have "i - off - n + (off + n) = i" and "\<not> i - off < n" and "\<not> i < off"
      by linarith+
    then show ?thesis using 3 assms by (simp add: memmove_def nth_append)
  qed
qed

lemma read_clusters_copies:
  assumes "read_clusters fuel v ft cs fsize c written dest = Some (Inr dest')"
    and "written \<le> fsize" and "fsize \<le> length dest" and "0 < cs"
  shows "length dest' = length dest \<and>
         (\<forall>i < length dest.
            dest' ! i = (if written \<le> i \<and> i < fsize then file_byte v ft cs c (i - written)
                         else dest ! i))"
  using assms
proof (induction fuel arbitrary: c written dest)
  case 0
  then show ?case by simp
next
  case (Suc fuel)
  from Suc.prems(1) obtain data where
    p: "fat_get_pointer_to_cluster_data (hdr v) c = Inr data"
    by (auto split: sum.splits)
  have cp: "cluster_ptr v c = data" using p by (simp add: cluster_ptr_def)
  show ?case
  proof (cases "fsize - written \<le> cs")
    case True
    with Suc.prems(1) p have d: "dest' = memmove dest written (mem v) data (fsize - written)"
      by simp
    have fit: "written + (fsize - written) \<le> length dest" using Suc.prems(2,3) by simp
    have "\<forall>i < length dest.
            dest' ! i = (if written \<le> i \<and> i < fsize then file_byte v ft cs c (i - written)
                         else dest ! i)"
    proof (intro allI impI)
      fix i assume i: "i < length dest"
      show "dest' ! i = (if written \<le> i \<and> i < fsize then file_byte v ft cs c (i - written)
                         else dest ! i)"
      proof (cases "written \<le> i \<and> i < fsize")
        case False
        then show ?thesis unfolding d memmove_nth [OF fit i] using Suc.prems(2) by auto
      next
        case in_range: True
        then have "i - written < cs" using True by linarith
        then have "file_byte v ft cs c (i - written) = mem v (data + (i - written))"
          by (simp add: file_byte_def cp)
        then show ?thesis unfolding d memmove_nth [OF fit i] using in_range by auto
      qed
    qed
    then show ?thesis using d memmove_length [OF fit] by simp
  next
    case False
    then have more: "written + cs < fsize" by linarith
    let ?dest1 = "memmove dest written (mem v) data cs"
    from Suc.prems(1) p False more obtain fatval where
      f: "fat_read_fat_entry v ft c 0 = Inr fatval"
      and r: "read_clusters fuel v ft cs fsize fatval (written + cs) ?dest1 = Some (Inr dest')"
      by (auto split: sum.splits if_splits)
    have fit: "written + cs \<le> length dest" using more Suc.prems(3) by linarith
    have l1: "length ?dest1 = length dest" using memmove_length [OF fit] .
    have "written + cs \<le> fsize" and "fsize \<le> length ?dest1"
      using more Suc.prems(3) l1 by simp_all
    note IH = Suc.IH [OF r this Suc.prems(4)]
    have "\<forall>i < length dest.
            dest' ! i = (if written \<le> i \<and> i < fsize then file_byte v ft cs c (i - written)
                         else dest ! i)"
    proof (intro allI impI)
      fix i assume i: "i < length dest"
      then have i1: "i < length ?dest1" using l1 by simp
      from IH i1 have e: "dest' ! i =
          (if written + cs \<le> i \<and> i < fsize then file_byte v ft cs fatval (i - (written + cs))
           else ?dest1 ! i)" by blast
      show "dest' ! i = (if written \<le> i \<and> i < fsize then file_byte v ft cs c (i - written)
                         else dest ! i)"
      proof (cases "written + cs \<le> i \<and> i < fsize")
        case True
        then have s: "i - written = (i - (written + cs)) + cs" by linarith
        have "(i - written) div cs = Suc ((i - (written + cs)) div cs)"
          and "(i - written) mod cs = (i - (written + cs)) mod cs"
          using Suc.prems(4) div_add_self2 [of cs "i - (written + cs)"] unfolding s
          by simp_all
        then have "file_byte v ft cs c (i - written) = file_byte v ft cs fatval (i - (written + cs))"
          using f by (simp add: file_byte_def)
        then show ?thesis using e True by auto
      next
        case False
        then have e': "dest' ! i = ?dest1 ! i" using e by auto
        show ?thesis
        proof (cases "written \<le> i \<and> i < written + cs")
          case True
          then have "i - written < cs" by linarith
          then have "file_byte v ft cs c (i - written) = mem v (data + (i - written))"
            by (simp add: file_byte_def cp)
          then show ?thesis unfolding e' memmove_nth [OF fit i] using True more by auto
        next
          case out: False
          then show ?thesis unfolding e' memmove_nth [OF fit i] using False by auto
        qed
      qed
    qed
    then show ?thesis using IH l1 by simp
  qed
qed

lemma links_step:
  fixes cs x :: nat
  assumes "0 < cs" and "cs < x"
  shows "(x - 1) div cs = Suc ((x - cs - 1) div cs)"
proof -
  have "cs \<le> x - 1" using assms(2) by simp
  from le_div_geq [OF assms(1) this] have "(x - 1) div cs = Suc ((x - 1 - cs) div cs)" .
  moreover have "x - 1 - cs = x - cs - 1" by simp
  ultimately show ?thesis by simp
qed

lemma read_clusters_returns:
  assumes "0 < cs" and "(fsize - written - 1) div cs < fuel"
  shows "read_clusters fuel v ft cs fsize c written dest \<noteq> None"
  using assms
proof (induction fuel arbitrary: c written dest)
  case 0
  then show ?case by simp
next
  case (Suc fuel)
  show ?case
  proof (cases "fsize - written \<le> cs")
    case True
    then show ?thesis by (simp split: sum.splits)
  next
    case False
    then have "cs < fsize - written" by simp
    from links_step [OF Suc.prems(1) this] Suc.prems(2)
    have "(fsize - (written + cs) - 1) div cs < fuel" by simp
    from Suc.IH [OF Suc.prems(1) this] show ?thesis
      by (simp split: sum.splits)
  qed
qed

lemma classified_cluster_size:
  assumes "fat_get_type h = Inr ft"
  shows "0 < cluster_size h"
proof -
  from assms have "BPB_BytsPerSec h \<noteq> 0" and "BPB_SecPerClus h \<noteq> 0"
    by (auto simp: fat_get_type_def fat_get_RootDirSectors_def split: sum.splits if_splits)
  then have "unat (BPB_BytsPerSec h) \<noteq> 0" and "unat (BPB_SecPerClus h) \<noteq> 0"
    by (simp_all add: unat_eq_zero)
  then show ?thesis by (simp add: cluster_size_def)
qed

lemma classified_cluster_ptr:
  assumes "fat_get_type h = Inr ft"
  shows "\<exists>a. fat_get_pointer_to_cluster_data h c = Inr a"
proof -
  from assms have "BPB_BytsPerSec h \<noteq> 0"
    by (auto simp: fat_get_type_def fat_get_RootDirSectors_def split: sum.splits if_splits)
  then show ?thesis
    by (simp add: fat_get_pointer_to_cluster_data_def fat_get_sector_for_cluster_def
        fat_get_first_data_sector_def fat_get_RootDirSectors_def Let_def)
qed

text \<open>Along a sound chain the loop copies and returns.\<close>

lemma read_clusters_sound:
  assumes "0 < cs"
    and "\<And>c. \<exists>a. fat_get_pointer_to_cluster_data (hdr v) c = Inr a"
    and "sound_chain v ft c ((fsize - written - 1) div cs)"
    and "(fsize - written - 1) div cs < fuel"
  shows "\<exists>dest'. read_clusters fuel v ft cs fsize c written dest = Some (Inr dest')"
  using assms(3,4)
proof (induction fuel arbitrary: c written dest)
  case 0
  then show ?case by simp
next
  case (Suc fuel)
  obtain data where p: "fat_get_pointer_to_cluster_data (hdr v) c = Inr data"
    using assms(2) by blast
  show ?case
  proof (cases "fsize - written \<le> cs")
    case True
    then show ?thesis using p by simp
  next
    case False
    then have more: "cs < fsize - written" by simp
    let ?k = "(fsize - (written + cs) - 1) div cs"
    from links_step [OF assms(1) more]
    have k: "(fsize - written - 1) div cs = Suc ?k" by simp
    from Suc.prems(1) obtain nxt where
      f: "fat_read_fat_entry v ft c 0 = Inr nxt"
      and e: "\<not> fat_is_end_of_clusterchain ft nxt" and b: "\<not> fat_is_bad_cluster ft nxt"
      and ch: "sound_chain v ft nxt ?k"
      unfolding k by (auto split: sum.splits)
    have "?k < fuel" using Suc.prems(2) unfolding k by simp
    from Suc.IH [OF ch this] obtain dest' where
      "read_clusters fuel v ft cs fsize nxt (written + cs)
         (memmove dest written (mem v) data cs) = Some (Inr dest')"
      by blast
    then show ?thesis using p f e b more by simp
  qed
qed

text \<open>
  A chain that is sound for \<open>j\<close> steps and then shows an end-of-chain mark or a
  bad-cluster mark, while more than one cluster is still to be copied, stops the kernel.
\<close>

lemma read_clusters_broken:
  assumes "0 < cs"
    and "\<And>c. \<exists>a. fat_get_pointer_to_cluster_data (hdr v) c = Inr a"
    and "sound_chain v ft c j"
    and "j < (fsize - written - 1) div cs"
    and "j < fuel"
    and "fat_read_fat_entry v ft (nth_cluster v ft c j) 0 = Inr fv"
    and "fat_is_end_of_clusterchain ft fv \<or> fat_is_bad_cluster ft fv"
  shows "read_clusters fuel v ft cs fsize c written dest =
           Some (Inl (if fat_is_end_of_clusterchain ft fv then NotReached else AssertFailed))"
  using assms(3-6)
proof (induction j arbitrary: c written dest fuel)
  case 0
  obtain data where p: "fat_get_pointer_to_cluster_data (hdr v) c = Inr data"
    using assms(2) by blast
  from 0(3) obtain f where fuel: "fuel = Suc f" by (cases fuel) simp_all
  have more: "cs < fsize - written"
  proof (rule ccontr)
    assume "\<not> cs < fsize - written"
    then have "fsize - written - 1 < cs" using assms(1) by simp
    then have "(fsize - written - 1) div cs = 0" by simp
    with 0(2) show False by simp
  qed
  from 0(4) have f0: "fat_read_fat_entry v ft c 0 = Inr fv" by simp
  show ?case unfolding fuel using p more f0 assms(7) by auto
next
  case (Suc j)
  obtain data where p: "fat_get_pointer_to_cluster_data (hdr v) c = Inr data"
    using assms(2) by blast
  from Suc.prems(3) obtain f where fuel: "fuel = Suc f" and jf: "j < f"
    by (cases fuel) simp_all
  have more: "cs < fsize - written"
  proof (rule ccontr)
    assume "\<not> cs < fsize - written"
    then have "fsize - written - 1 < cs" using assms(1) by simp
    then have "(fsize - written - 1) div cs = 0" by simp
    with Suc.prems(2) show False by simp
  qed
  let ?k = "(fsize - (written + cs) - 1) div cs"
  from links_step [OF assms(1) more]
  have k: "(fsize - written - 1) div cs = Suc ?k" by simp
  from Suc.prems(1) obtain nxt where
    f: "fat_read_fat_entry v ft c 0 = Inr nxt"
    and e: "\<not> fat_is_end_of_clusterchain ft nxt" and b: "\<not> fat_is_bad_cluster ft nxt"
    and ch: "sound_chain v ft nxt j"
    by (auto split: sum.splits)
  have jk: "j < ?k" using Suc.prems(2) unfolding k by simp
  have rd: "fat_read_fat_entry v ft (nth_cluster v ft nxt j) 0 = Inr fv"
    using Suc.prems(4) f by simp
  note IH = Suc.IH [OF ch jk jf rd, of "memmove dest written (mem v) data cs"]
  have lt: "written + cs < fsize" and "\<not> fsize - written \<le> cs" using more by linarith+
  then show ?case unfolding fuel using p f e b IH by simp
qed

text \<open>
  Claim C5. Let the file size be at most the size of the destination buffer and let the
  volume classify. When the cluster chain of the entry is sound for the steps the file
  needs and the loop is allowed more rounds than that, \<open>fat_read_whole_file\<close> returns:
  the buffer has its old length, its first \<open>DIR_FileSize\<close> bytes are the bytes of the
  file (byte \<open>i\<close> is byte \<open>i mod cluster_size\<close> of the cluster reached from the first
  cluster after \<open>i div cluster_size\<close> steps along the FAT), and the bytes behind them are
  untouched. When the chain is sound for fewer steps than the file needs and the next FAT
  entry is an end-of-chain mark, the call reaches \<open>NOT_REACHED\<close>; when that entry is a
  bad-cluster mark, the assertion fails. In every case the call comes to an end once the
  loop is allowed more rounds than the file needs steps.
\<close>

theorem fat_read_whole_file_copies:
  assumes pre: "unat (DIR_FileSize e) \<le> length dest_buf"
    and ty: "fat_get_type (hdr v) = Inr ft"
  shows "(sound_chain v ft (fat_get_first_cluster e)
            (links_needed (unat (DIR_FileSize e)) (cluster_size (hdr v))) \<and>
          links_needed (unat (DIR_FileSize e)) (cluster_size (hdr v)) < fuel \<longrightarrow>
            (\<exists>dest'. fat_read_whole_file fuel v e dest_buf = Some (Inr dest') \<and>
               length dest' = length dest_buf \<and>
               (\<forall>i < length dest_buf.
                  dest' ! i =
                    (if i < unat (DIR_FileSize e)
                     then file_byte v ft (cluster_size (hdr v)) (fat_get_first_cluster e) i
                     else dest_buf ! i)))) \<and>
         (\<forall>j fv.
            j < links_needed (unat (DIR_FileSize e)) (cluster_size (hdr v)) \<and> j < fuel \<and>
            sound_chain v ft (fat_get_first_cluster e) j \<and>
            fat_read_fat_entry v ft (nth_cluster v ft (fat_get_first_cluster e) j) 0 = Inr fv \<and>
            (fat_is_end_of_clusterchain ft fv \<or> fat_is_bad_cluster ft fv) \<longrightarrow>
            fat_read_whole_file fuel v e dest_buf =
              Some (Inl (if fat_is_end_of_clusterchain ft fv then NotReached else AssertFailed))) \<and>
         (links_needed (unat (DIR_FileSize e)) (cluster_size (hdr v)) < fuel \<longrightarrow>
            (\<exists>r. fat_read_whole_file fuel v e dest_buf = Some r))"
proof -
  let ?cs = "cluster_size (hdr v)"
  let ?fsize = "unat (DIR_FileSize e)"
  let ?first = "fat_get_first_cluster e"
  let ?n = "links_needed ?fsize ?cs"
  have cs: "0 < ?cs" using classified_cluster_size [OF ty] .
  have ptr: "\<And>c. \<exists>a. fat_get_pointer_to_cluster_data (hdr v) c = Inr a"
    using classified_cluster_ptr [OF ty] .
  have n: "(?fsize - 0 - 1) div ?cs = ?n" by (simp add: links_needed_def)
  have run: "fat_read_whole_file fuel v e dest_buf =
             read_clusters fuel v ft ?cs ?fsize ?first 0 dest_buf"
    using pre ty by (simp add: fat_read_whole_file_def)
  have a: "sound_chain v ft ?first ?n \<and> ?n < fuel \<longrightarrow>
            (\<exists>dest'. fat_read_whole_file fuel v e dest_buf = Some (Inr dest') \<and>
               length dest' = length dest_buf \<and>
               (\<forall>i < length dest_buf.
                  dest' ! i =
                    (if i < ?fsize then file_byte v ft ?cs ?first i else dest_buf ! i)))"
  proof
    assume h: "sound_chain v ft ?first ?n \<and> ?n < fuel"
    then have ch: "sound_chain v ft ?first ((?fsize - 0 - 1) div ?cs)"
      and fu: "(?fsize - 0 - 1) div ?cs < fuel"
      unfolding n by simp_all
    from read_clusters_sound [OF cs ptr ch fu, of dest_buf] obtain dest' where
      r: "read_clusters fuel v ft ?cs ?fsize ?first 0 dest_buf = Some (Inr dest')"
      by blast
    have z: "0 \<le> ?fsize" by simp
    from read_clusters_copies [OF r z pre cs]
    have "length dest' = length dest_buf \<and>
            (\<forall>i < length dest_buf.
               dest' ! i = (if i < ?fsize then file_byte v ft ?cs ?first i else dest_buf ! i))"
      by simp
    then show "\<exists>dest'. fat_read_whole_file fuel v e dest_buf = Some (Inr dest') \<and>
               length dest' = length dest_buf \<and>
               (\<forall>i < length dest_buf.
                  dest' ! i =
                    (if i < ?fsize then file_byte v ft ?cs ?first i else dest_buf ! i))"
      unfolding run using r by blast
  qed
  have b: "\<forall>j fv.
            j < ?n \<and> j < fuel \<and> sound_chain v ft ?first j \<and>
            fat_read_fat_entry v ft (nth_cluster v ft ?first j) 0 = Inr fv \<and>
            (fat_is_end_of_clusterchain ft fv \<or> fat_is_bad_cluster ft fv) \<longrightarrow>
            fat_read_whole_file fuel v e dest_buf =
              Some (Inl (if fat_is_end_of_clusterchain ft fv then NotReached else AssertFailed))"
  proof (intro allI impI)
    fix j fv
    assume h: "j < ?n \<and> j < fuel \<and> sound_chain v ft ?first j \<and>
            fat_read_fat_entry v ft (nth_cluster v ft ?first j) 0 = Inr fv \<and>
            (fat_is_end_of_clusterchain ft fv \<or> fat_is_bad_cluster ft fv)"
    then have j: "j < (?fsize - 0 - 1) div ?cs" and jf: "j < fuel"
      and ch: "sound_chain v ft ?first j"
      and rd: "fat_read_fat_entry v ft (nth_cluster v ft ?first j) 0 = Inr fv"
      and bad: "fat_is_end_of_clusterchain ft fv \<or> fat_is_bad_cluster ft fv"
      unfolding n by blast+
    from read_clusters_broken [OF cs ptr ch j jf rd bad, of dest_buf]
    show "fat_read_whole_file fuel v e dest_buf =
            Some (Inl (if fat_is_end_of_clusterchain ft fv then NotReached else AssertFailed))"
      unfolding run .
  qed
  have c: "?n < fuel \<longrightarrow> (\<exists>r. fat_read_whole_file fuel v e dest_buf = Some r)"
  proof
    assume "?n < fuel"
    then have "(?fsize - 0 - 1) div ?cs < fuel" unfolding n .
    from read_clusters_returns [OF cs this]
    have "read_clusters fuel v ft ?cs ?fsize ?first 0 dest_buf \<noteq> None" .
    then show "\<exists>r. fat_read_whole_file fuel v e dest_buf = Some r"
      unfolding run by (rule not_None_eq [THEN iffD1])
  qed
  from a b c show ?thesis by (intro conjI)
qed

lemma data_bin_facts:
  "unat (DIR_FileSize (slot_at vol16 11264)) = 600 \<and>
   fat_get_type (hdr vol16) = Inr fat16_type \<and>
   cluster_size (hdr vol16) = 512 \<and>
   fat_get_first_cluster (slot_at vol16 11264) = 4 \<and>
   fat_get_pointer_to_cluster_data (hdr vol16) 4 = Inr 12288 \<and>
   fat_read_fat_entry vol16 fat16_type 4 0 = Inr 6 \<and>
   \<not> fat_is_end_of_clusterchain fat16_type 6 \<and> \<not> fat_is_bad_cluster fat16_type 6 \<and>
   fat_get_pointer_to_cluster_data (hdr vol16) 6 = Inr 13312 \<and>
   fat_read_fat_entry vol16 fat16_type 6 0 = Inr 0xFFFF \<and>
   fat_is_end_of_clusterchain fat16_type 0xFFFF"
  by code_simp

lemma data_bin_bytes:
  "file_byte vol16 fat16_type 512 4 0 = mem vol16 12288 \<and>
   file_byte vol16 fat16_type 512 4 511 = mem vol16 12799 \<and>
   file_byte vol16 fat16_type 512 4 512 = mem vol16 13312 \<and>
   file_byte vol16 fat16_type 512 4 599 = mem vol16 13399"
  by code_simp

text \<open>
  \<open>DATA.BIN\<close> of the example volume: 600 bytes in the clusters 4 and 6, read into a buffer
  of 602 bytes. The same entry with a size of 1100 bytes needs a third cluster, and the FAT
  entry of cluster 6 is an end-of-chain mark.
\<close>

theorem fat_read_whole_file_copies_witness:
  "unat (DIR_FileSize (slot_at vol16 11264)) = 600 \<and>
   fat_get_type (hdr vol16) = Inr fat16_type \<and>
   cluster_size (hdr vol16) = 512 \<and>
   fat_get_first_cluster (slot_at vol16 11264) = 4 \<and>
   links_needed 600 512 = 1 \<and> sound_chain vol16 fat16_type 4 1 \<and>
   (\<exists>d. fat_read_whole_file 2 vol16 (slot_at vol16 11264) (replicate 602 0xAA) = Some (Inr d) \<and>
        length d = 602 \<and> d ! 0 = mem vol16 12288 \<and> d ! 511 = mem vol16 12799 \<and>
        d ! 512 = mem vol16 13312 \<and> d ! 599 = mem vol16 13399 \<and> d ! 600 = 0xAA) \<and>
   links_needed 1100 512 = 2 \<and>
   fat_read_fat_entry vol16 fat16_type (nth_cluster vol16 fat16_type 4 1) 0 = Inr 0xFFFF \<and>
   fat_read_whole_file 3 vol16 ((slot_at vol16 11264)\<lparr>DIR_FileSize := 1100\<rparr>) (replicate 1100 0)
     = Some (Inl NotReached)"
proof -
  note facts = data_bin_facts
  let ?e = "slot_at vol16 11264"
  let ?buf = "replicate 602 (0xAA :: u8)"
  have pre: "unat (DIR_FileSize ?e) \<le> length ?buf"
    and ty: "fat_get_type (hdr vol16) = Inr fat16_type"
    using facts by simp_all
  have l1: "links_needed 600 512 = 1" by (simp add: links_needed_def)
  have one: "(1::nat) = Suc 0" by simp
  have ch: "sound_chain vol16 fat16_type 4 1" unfolding one using facts by simp
  have h: "sound_chain vol16 fat16_type (fat_get_first_cluster ?e)
             (links_needed (unat (DIR_FileSize ?e)) (cluster_size (hdr vol16))) \<and>
           links_needed (unat (DIR_FileSize ?e)) (cluster_size (hdr vol16)) < 2"
    using facts ch l1 by simp
  from fat_read_whole_file_copies [OF pre ty, of 2] h obtain d where
    r: "fat_read_whole_file 2 vol16 ?e ?buf = Some (Inr d)"
    and l: "length d = length ?buf"
    and n: "\<forall>i < length ?buf. d ! i =
          (if i < unat (DIR_FileSize ?e)
           then file_byte vol16 fat16_type (cluster_size (hdr vol16)) (fat_get_first_cluster ?e) i
           else ?buf ! i)"
    by blast
  have n': "\<And>i. i < 602 \<Longrightarrow> d ! i =
          (if i < 600 then file_byte vol16 fat16_type 512 4 i else 0xAA)"
    using n facts by simp
  have bytes: "d ! 0 = mem vol16 12288" "d ! 511 = mem vol16 12799" "d ! 512 = mem vol16 13312"
    "d ! 599 = mem vol16 13399" "d ! 600 = 0xAA"
    using n' [of 0] n' [of 511] n' [of 512] n' [of 599] n' [of 600] data_bin_bytes by simp_all
  have len: "length d = 602" using l by simp
  let ?e2 = "(slot_at vol16 11264)\<lparr>DIR_FileSize := 1100\<rparr>"
  let ?buf2 = "replicate 1100 (0 :: u8)"
  have pre2: "unat (DIR_FileSize ?e2) \<le> length ?buf2" by simp
  have l2: "links_needed 1100 512 = 2" by (simp add: links_needed_def)
  have nc: "nth_cluster vol16 fat16_type 4 1 = 6" unfolding one using facts by simp
  have rd: "fat_read_fat_entry vol16 fat16_type (nth_cluster vol16 fat16_type 4 1) 0 = Inr 0xFFFF"
    unfolding nc using facts by simp
  have f2: "fat_get_first_cluster ?e2 = 4"
    using facts by (simp add: fat_get_first_cluster_def)
  have h2: "1 < links_needed (unat (DIR_FileSize ?e2)) (cluster_size (hdr vol16)) \<and> (1::nat) < 3 \<and>
            sound_chain vol16 fat16_type (fat_get_first_cluster ?e2) 1 \<and>
            fat_read_fat_entry vol16 fat16_type
              (nth_cluster vol16 fat16_type (fat_get_first_cluster ?e2) 1) 0 = Inr 0xFFFF \<and>
            (fat_is_end_of_clusterchain fat16_type 0xFFFF \<or> fat_is_bad_cluster fat16_type 0xFFFF)"
    unfolding f2 using facts ch l2 rd by simp
  from fat_read_whole_file_copies [OF pre2 ty, of 3] h2
  have "fat_read_whole_file 3 vol16 ?e2 ?buf2 =
          Some (Inl (if fat_is_end_of_clusterchain fat16_type 0xFFFF then NotReached
                     else AssertFailed))"
    by blast
  then have broken: "fat_read_whole_file 3 vol16 ?e2 ?buf2 = Some (Inl NotReached)"
    using facts by simp
  from r len bytes have
    "\<exists>d. fat_read_whole_file 2 vol16 ?e ?buf = Some (Inr d) \<and>
        length d = 602 \<and> d ! 0 = mem vol16 12288 \<and> d ! 511 = mem vol16 12799 \<and>
        d ! 512 = mem vol16 13312 \<and> d ! 599 = mem vol16 13399 \<and> d ! 600 = 0xAA"
    by blast
  then show ?thesis using facts l1 ch l2 rd broken by simp
qed

text \<open>A file larger than the buffer fails the assertion at the start.\<close>

lemma fat_read_whole_file_asserts:
  "\<not> unat (DIR_FileSize e) \<le> length dest_buf \<Longrightarrow>
   fat_read_whole_file fuel v e dest_buf = Some (Inl AssertFailed)"
  by (simp add: fat_read_whole_file_def)

text \<open>The five bytes of \<open>HELLO.TXT\<close>.\<close>

lemma read_hello:
  "fat_read_whole_file 1 vol16 (slot_at vol16 10784) (replicate 5 0) = Some (Inr (ascii ''Hello''))"
  by code_simp

section \<open>Path resolution with and without a trailing slash\<close>

text \<open>
  Two walks with the same callback, over the same slots, from arguments related by \<open>R\<close>.
  The callback keeps the arguments related by \<open>R\<close> when it returns 0 and leaves them
  related by \<open>Q\<close> when it asks for a stop, unless the first run ends in a state \<open>J\<close>.
\<close>

lemma walk_entries_related:
  assumes step: "\<forall>entry ln a a' r b. R a a' \<longrightarrow> cb v ft entry ln a = Inr (r, b) \<longrightarrow>
                   (r \<noteq> 0 \<and> J b) \<or>
                   (\<exists>b'. cb v ft entry ln a' = Inr (r, b') \<and> (if r = 0 then R b b' else Q b b'))"
    and "R a a'"
    and "walk_entries cb v ft entry n i ctx a = Inr (ret, ctx1, b)"
  shows "(ret \<and> J b) \<or>
         (\<exists>b'. walk_entries cb v ft entry n i ctx a' = Inr (ret, ctx1, b') \<and>
               (if ret then R b b' \<or> Q b b' else R b b'))"
  using assms(2,3)
proof (induction n arbitrary: i ctx a a')
  case 0
  then show ?case by auto
next
  case (Suc n)
  let ?e = "slot_at v (entry + 32 * i)"
  show ?case
  proof (cases "is_long_name_entry ?e")
    case True
    with Suc.prems(2) obtain ctxh where
      h: "fat_handle_long_dir_entry ctx ?e = Inr ctxh"
      and "walk_entries cb v ft entry n (Suc i) ctxh a = Inr (ret, ctx1, b)"
      by (auto simp: Let_def split: sum.splits)
    from Suc.IH [OF Suc.prems(1) this(2)] True h show ?thesis by (simp add: Let_def)
  next
    case nl: False
    show ?thesis
    proof (cases "volume_id ?e")
      case True
      with nl Suc.prems(2) have "walk_entries cb v ft entry n (Suc i) ctx a = Inr (ret, ctx1, b)"
        by (simp add: Let_def)
      from Suc.IH [OF Suc.prems(1) this] True nl show ?thesis by (simp add: Let_def)
    next
      case nv: False
      show ?thesis
      proof (cases "DIR_Name ?e ! 0 = 0x00 \<or> DIR_Name ?e ! 0 = 0xE5")
        case True
        with nl nv Suc.prems show ?thesis by (auto simp: Let_def)
      next
        case live: False
        from nl nv live Suc.prems(2) obtain ln ctxl r a1 where
          lp: "long_name_ptr ctx ?e = Inr (ln, ctxl)"
          and c: "cb v ft (entry + 32 * i) ln a = Inr (r, a1)"
          and rest: "(if r \<noteq> 0 then Inr (True, ctxl\<lparr>lname_sz := 0, lname_chksum := -1\<rparr>, a1)
                      else walk_entries cb v ft entry n (Suc i)
                             (ctxl\<lparr>lname_sz := 0, lname_chksum := -1\<rparr>) a1) = Inr (ret, ctx1, b)"
          by (auto simp: Let_def split: sum.splits prod.splits)
        let ?ctx' = "ctxl\<lparr>lname_sz := 0, lname_chksum := -1\<rparr>"
        from step [rule_format, OF Suc.prems(1) c] consider
          (j) "r \<noteq> 0" "J a1" | (g) a1' where "cb v ft (entry + 32 * i) ln a' = Inr (r, a1')"
              "if r = 0 then R a1 a1' else Q a1 a1'"
          by blast
        then show ?thesis
        proof cases
          case g
          show ?thesis
          proof (cases "r = 0")
            case True
            with rest have w: "walk_entries cb v ft entry n (Suc i) ?ctx' a1 = Inr (ret, ctx1, b)"
              by simp
            from g True have "R a1 a1'" by simp
            from Suc.IH [OF this w] g(1) True nl nv live lp show ?thesis
              by (auto simp: Let_def)
          next
            case False
            with rest have "ret" "ctx1 = ?ctx'" "b = a1" by simp_all
            with g False nl nv live lp show ?thesis by (auto simp: Let_def)
          qed
        next
          case j
          with rest have "ret" "b = a1" by simp_all
          with j show ?thesis by simp
        qed
      qed
    qed
  qed
qed


lemma walk_clusters_related:
  assumes step: "\<forall>entry ln a a' r b. R a a' \<longrightarrow> cb v ft entry ln a = Inr (r, b) \<longrightarrow>
                   (r \<noteq> 0 \<and> J b) \<or>
                   (\<exists>b'. cb v ft entry ln a' = Inr (r, b') \<and> (if r = 0 then R b b' else Q b b'))"
    and "R a a'"
    and "walk_clusters fuel cb v ft entry cluster ctx a = Some (Inr (r, ctx1, b))"
  shows "J b \<or>
         (\<exists>b'. walk_clusters fuel cb v ft entry cluster ctx a' = Some (Inr (r, ctx1, b')) \<and>
               (R b b' \<or> Q b b'))"
  using assms(2,3)
proof (induction fuel arbitrary: entry cluster ctx a a')
  case 0
  then show ?case by simp
next
  case (Suc fuel)
  let ?p = "if cluster \<noteq> 0
            then (case fat_get_pointer_to_cluster_data (hdr v) cluster of
                    Inl p \<Rightarrow> Inl p | Inr a \<Rightarrow> Inr (Some a))
            else Inr entry"
  from Suc.prems(2) obtain e where p: "?p = Inr (Some e)"
    by (cases ?p) (auto split: option.splits)
  from Suc.prems(2) p obtain ret ctx2 a2 where
    w: "walk_entries cb v ft e (entries_per_cluster (hdr v)) 0 ctx a = Inr (ret, ctx2, a2)"
    by (cases "walk_entries cb v ft e (entries_per_cluster (hdr v)) 0 ctx a") auto
  have unf: "\<And>x. walk_clusters (Suc fuel) cb v ft entry cluster ctx x =
      (case walk_entries cb v ft e (entries_per_cluster (hdr v)) 0 ctx x of
         Inl p \<Rightarrow> Some (Inl p)
       | Inr (returned, ctx', arg') \<Rightarrow>
           if returned then Some (Inr (0, ctx', arg'))
           else if cluster = 0 then Some (Inr (0, ctx', arg'))
           else (case fat_read_fat_entry v ft cluster 0 of
                   Inl p \<Rightarrow> Some (Inl p)
                 | Inr val \<Rightarrow>
                     if fat_is_end_of_clusterchain ft val then Some (Inr (0, ctx', arg'))
                     else if fat_is_bad_cluster ft val then Some (Inl AssertFailed)
                     else walk_clusters fuel cb v ft (Some e) val ctx' arg'))"
    using p by (simp del: walk_entries.simps)
  from walk_entries_related [where R = R and Q = Q and J = J and cb = cb and v = v and ft = ft, OF step Suc.prems(1) w]
  consider (j) "ret" "J a2"
    | (g) a2' where "walk_entries cb v ft e (entries_per_cluster (hdr v)) 0 ctx a' = Inr (ret, ctx2, a2')"
        "if ret then R a2 a2' \<or> Q a2 a2' else R a2 a2'"
    by blast
  then show ?case
  proof cases
    case j
    with Suc.prems(2) w show ?thesis unfolding unf by simp
  next
    case g
    show ?thesis
    proof (cases "ret \<or> cluster = 0")
      case True
      with Suc.prems(2) w g show ?thesis unfolding unf by (auto split: if_splits)
    next
      case False
      with Suc.prems(2) w obtain val where
        f: "fat_read_fat_entry v ft cluster 0 = Inr val"
        unfolding unf by (auto split: sum.splits)
      show ?thesis
      proof (cases "fat_is_end_of_clusterchain ft val")
        case True
        with Suc.prems(2) w g f False show ?thesis unfolding unf by auto
      next
        case neoc: False
        with Suc.prems(2) w f False have
          nb: "\<not> fat_is_bad_cluster ft val"
          and rec: "walk_clusters fuel cb v ft (Some e) val ctx2 a2 = Some (Inr (r, ctx1, b))"
          unfolding unf by (auto split: if_splits)
        from g False have "R a2 a2'" by simp
        from Suc.IH [OF this rec] show ?thesis
          unfolding unf using g(1) f False neoc nb by auto
      qed
    qed
  qed
qed

lemma fat_walk_directory_related:
  assumes step: "\<forall>entry ln a a' r b. R a a' \<longrightarrow> cb v ft entry ln a = Inr (r, b) \<longrightarrow>
                   (r \<noteq> 0 \<and> J b) \<or>
                   (\<exists>b'. cb v ft entry ln a' = Inr (r, b') \<and> (if r = 0 then R b b' else Q b b'))"
    and "R a a'"
    and "fat_walk_directory fuel ctx v ft entry cluster cb a = Some (Inr (r, ctx1, b))"
  shows "J b \<or>
         (\<exists>b'. fat_walk_directory fuel ctx v ft entry cluster cb a' = Some (Inr (r, ctx1, b')) \<and>
               (R b b' \<or> Q b b'))"
proof -
  let ?ctx = "ctx\<lparr>lname_buf := (\<lambda>i. 0), lname_sz := 0, lname_chksum := -1\<rparr>"
  from assms(3) have ok: "ft = fat16_type \<or> ft = fat32_type"
    "\<not> (ft = fat16_type \<and> \<not> (cluster = 0 \<or> entry = None))"
    by (auto simp: fat_walk_directory_def split: if_splits)
  then have unf: "\<And>x. fat_walk_directory fuel ctx v ft entry cluster cb x =
                   walk_clusters fuel cb v ft entry cluster ?ctx x"
    by (auto simp: fat_walk_directory_def)
  from assms(3) have "walk_clusters fuel cb v ft entry cluster ?ctx a = Some (Inr (r, ctx1, b))"
    unfolding unf .
  from walk_clusters_related [where R = R and Q = Q and J = J and cb = cb and v = v and ft = ft, OF step assms(2) this]
  show ?thesis unfolding unf .
qed

lemma fetch_chars_slash:
  "fetch_chars p buf l = (p', buf', l') \<Longrightarrow>
   fetch_chars (p @ [0x2F]) buf l = (p' @ [0x2F], buf', l')"
  by (induction p arbitrary: buf l) (auto split: if_splits)

lemma peek_no_nul: "0 \<notin> set p \<Longrightarrow> peek p = 0 \<longleftrightarrow> p = []"
  by (cases p) (auto simp: peek_def)

lemma fetch_twin:
  assumes "slash_twin a a'" and "fat_fetch_next_component a = Inr (f, a1)"
  shows "\<exists>a1'. fat_fetch_next_component a' = Inr (f, a1') \<and> slash_twin a1 a1' \<and>
               subdir_cluster a1 = subdir_cluster a"
proof -
  from assms(2) have z: "pcl a = 0"
    by (auto simp: fat_fetch_next_component_def split: if_splits)
  obtain p' buf' l' where fc: "fetch_chars (path a) (pc a) (pcl a) = (p', buf', l')"
    by (cases "fetch_chars (path a) (pc a) (pcl a)") auto
  from fetch_chars_spec [OF fc] have "set p' \<subseteq> set (path a)"
    by (auto dest: set_dropWhileD)
  then have nz: "0 \<notin> set p'" using assms(1) by (auto simp: slash_twin_def)
  from assms(2) z fc have a1: "a1 = a\<lparr>path := p', pc := buf'(l' := 0), pcl := Suc l'\<rparr>"
    and f: "f = True"
    by (auto simp: fat_fetch_next_component_def)
  from assms(1) have a': "a' = a\<lparr>path := path a @ [0x2F]\<rparr>" by (simp add: slash_twin_def)
  have "fat_fetch_next_component a' =
          Inr (True, a'\<lparr>path := p' @ [0x2F], pc := buf'(l' := 0), pcl := Suc l'\<rparr>)"
    using z fetch_chars_slash [OF fc] unfolding a' by (simp add: fat_fetch_next_component_def)
  moreover have "slash_twin a1 (a'\<lparr>path := p' @ [0x2F], pc := buf'(l' := 0), pcl := Suc l'\<rparr>)"
    using assms(1) nz unfolding a1 a' by (simp add: slash_twin_def)
  ultimately show ?thesis using f a1 by auto
qed

lemma matched_twin:
  assumes t: "slash_twin c c'" and s: "subdir_cluster c = 0"
    and m: "search_cb_matched (slot_at v entry) entry c = Inr (r, b)"
  shows "(r \<noteq> 0 \<and> settled_otherwise v b) \<or>
         (\<exists>b'. search_cb_matched (slot_at v entry) entry c' = Inr (r, b') \<and> r \<noteq> 0 \<and>
               (slash_twin b b' \<or> file_and_not_dir v b b'))"
proof -
  from t have c': "c' = c\<lparr>path := path c @ [0x2F]\<rparr>" and rn: "result c = None"
    and nd: "\<not> not_dir c" and sc: "\<not> single_comp c" and nz: "0 \<notin> set (path c)"
    by (simp_all add: slash_twin_def)
  show ?thesis
  proof (cases "path c")
    case Nil
    with m sc have b: "b = c\<lparr>result := Some entry\<rparr>" and r: "r = -1"
      by (simp_all add: search_cb_matched_def peek_def)
    show ?thesis
    proof (cases "directory (slot_at v entry)")
      case True
      then show ?thesis using b r s by (simp add: settled_otherwise_def)
    next
      case False
      have "search_cb_matched (slot_at v entry) entry c' =
              Inr (-1, c\<lparr>path := [], not_dir := True\<rparr>)"
        using Nil sc False unfolding c' by (simp add: search_cb_matched_def peek_def Let_def)
      moreover have "file_and_not_dir v b (c\<lparr>path := [], not_dir := True\<rparr>)"
        using b s rn nd False by (simp add: file_and_not_dir_def)
      ultimately show ?thesis using r by auto
    qed
  next
    case (Cons x xs)
    with nz have x0: "x \<noteq> 0" and nzx: "0 \<notin> set xs" by auto
    from m Cons sc x0 have x: "x = 0x2F"
      by (auto simp: search_cb_matched_def peek_def split: if_splits)
    show ?thesis
    proof (cases xs)
      case Nil
      with m Cons sc x have r: "r = -1"
        and b: "b = (if directory (slot_at v entry) then c\<lparr>path := [], result := Some entry\<rparr>
                     else c\<lparr>path := [], not_dir := True\<rparr>)"
        by (auto simp: search_cb_matched_def peek_def Let_def)
      then show ?thesis using s by (auto simp: settled_otherwise_def)
    next
      case (Cons y ys)
      with nzx have y0: "y \<noteq> 0" by auto
      show ?thesis
      proof (cases "directory (slot_at v entry)")
        case False
        from m \<open>path c = x # xs\<close> Cons sc x y0 False
        have r: "r = -1" and b: "b = c\<lparr>path := xs\<rparr>"
          by (auto simp: search_cb_matched_def peek_def Let_def)
        have "search_cb_matched (slot_at v entry) entry c' = Inr (-1, c\<lparr>path := xs @ [0x2F]\<rparr>)"
          using \<open>path c = x # xs\<close> Cons sc x y0 False unfolding c'
          by (simp add: search_cb_matched_def peek_def Let_def)
        moreover have "slash_twin b (c\<lparr>path := xs @ [0x2F]\<rparr>)"
          using b rn nd sc nzx by (simp add: slash_twin_def)
        ultimately show ?thesis using r by auto
      next
        case True
        let ?fc = "fat_get_first_cluster (slot_at v entry)"
        from m \<open>path c = x # xs\<close> Cons sc x y0 True
        have r: "r = -1" and b: "b = c\<lparr>path := xs, pcl := 0, subdir_cluster := ?fc\<rparr>"
          by (auto simp: search_cb_matched_def peek_def Let_def)
        have "search_cb_matched (slot_at v entry) entry c' =
                Inr (-1, c\<lparr>path := xs @ [0x2F], pcl := 0, subdir_cluster := ?fc\<rparr>)"
          using \<open>path c = x # xs\<close> Cons sc x y0 True unfolding c'
          by (simp add: search_cb_matched_def peek_def Let_def)
        moreover have "slash_twin b (c\<lparr>path := xs @ [0x2F], pcl := 0, subdir_cluster := ?fc\<rparr>)"
          using b rn nd sc nzx by (simp add: slash_twin_def)
        ultimately show ?thesis using r by auto
      qed
    qed
  qed
qed

lemma slash_twin_shortname:
  "slash_twin c c' \<Longrightarrow> slash_twin (c\<lparr>shortname := x\<rparr>) (c'\<lparr>shortname := x\<rparr>)"
  by (auto simp: slash_twin_def)

lemma compare_twin:
  assumes t: "slash_twin c c'" and s: "subdir_cluster c = 0"
    and m: "search_cb_compare v entry ln c = Inr (r, b)"
  shows "(r \<noteq> 0 \<and> settled_otherwise v b) \<or>
         (\<exists>b'. search_cb_compare v entry ln c' = Inr (r, b') \<and>
               (if r = 0 then slash_twin b b' \<and> subdir_cluster b = 0
                else slash_twin b b' \<or> file_and_not_dir v b b'))"
proof -
  from t have c': "c' = c\<lparr>path := path c @ [0x2F]\<rparr>" by (simp add: slash_twin_def)
  show ?thesis
  proof (cases ln)
    case (Some l)
    show ?thesis
    proof (cases "strcmp l (c_string (pc c) (pcl c)) \<noteq> 0")
      case True
      with m Some have "r = 0" "b = c" by (simp_all add: search_cb_compare_def)
      moreover have "search_cb_compare v entry ln c' = Inr (0, c')"
        using True Some unfolding c' by (simp add: search_cb_compare_def)
      ultimately show ?thesis using t s by auto
    next
      case False
      with m Some have mm: "search_cb_matched (slot_at v entry) entry c = Inr (r, b)"
        by (simp add: search_cb_compare_def)
      have "search_cb_compare v entry ln c' = search_cb_matched (slot_at v entry) entry c'"
        using False Some unfolding c' by (simp add: search_cb_compare_def)
      with matched_twin [OF t s mm] show ?thesis by auto
    qed
  next
    case None
    let ?sn = "fat_get_short_name (slot_at v entry)"
    let ?c1 = "c\<lparr>shortname := ?sn\<rparr>"
    let ?c1' = "c'\<lparr>shortname := ?sn\<rparr>"
    have t1: "slash_twin ?c1 ?c1'" using slash_twin_shortname [OF t] .
    have s1: "subdir_cluster ?c1 = 0" using s by simp
    show ?thesis
    proof (cases "stricmp (c_string_of ?sn) (c_string (pc c) (pcl c)) \<noteq> 0")
      case True
      with m None have "r = 0" "b = ?c1" by (simp_all add: search_cb_compare_def Let_def)
      moreover have "search_cb_compare v entry ln c' = Inr (0, ?c1')"
        using True None unfolding c' by (simp add: search_cb_compare_def Let_def)
      ultimately show ?thesis using t1 s1 by auto
    next
      case False
      with m None have mm: "search_cb_matched (slot_at v entry) entry ?c1 = Inr (r, b)"
        by (simp add: search_cb_compare_def Let_def)
      have "search_cb_compare v entry ln c' = search_cb_matched (slot_at v entry) entry ?c1'"
        using False None unfolding c' by (simp add: search_cb_compare_def Let_def)
      with matched_twin [OF t1 s1 mm] show ?thesis by auto
    qed
  qed
qed

lemma search_cb_twin:
  "\<forall>entry ln a a' r b.
     slash_twin a a' \<and> subdir_cluster a = 0 \<longrightarrow>
     fat_search_entry_cb v ft entry ln a = Inr (r, b) \<longrightarrow>
     (r \<noteq> 0 \<and> settled_otherwise v b) \<or>
     (\<exists>b'. fat_search_entry_cb v ft entry ln a' = Inr (r, b') \<and>
           (if r = 0 then slash_twin b b' \<and> subdir_cluster b = 0
            else slash_twin b b' \<or> file_and_not_dir v b b'))"
proof (intro allI impI)
  fix entry ln a a' r b
  assume ts: "slash_twin a a' \<and> subdir_cluster a = 0"
    and cb: "fat_search_entry_cb v ft entry ln a = Inr (r, b)"
  then have t: "slash_twin a a'" and s: "subdir_cluster a = 0" by simp_all
  from t have pcl: "pcl a' = pcl a" by (simp add: slash_twin_def)
  show "(r \<noteq> 0 \<and> settled_otherwise v b) \<or>
     (\<exists>b'. fat_search_entry_cb v ft entry ln a' = Inr (r, b') \<and>
           (if r = 0 then slash_twin b b' \<and> subdir_cluster b = 0
            else slash_twin b b' \<or> file_and_not_dir v b b'))"
  proof (cases "pcl a = 0")
    case False
    with cb have m: "search_cb_compare v entry ln a = Inr (r, b)"
      by (simp add: fat_search_entry_cb_def)
    have "fat_search_entry_cb v ft entry ln a' = search_cb_compare v entry ln a'"
      using False pcl by (simp add: fat_search_entry_cb_def)
    with compare_twin [OF t s m] show ?thesis by simp
  next
    case True
    from fetch_component [OF True] obtain a1 where
      f: "fat_fetch_next_component a = Inr (True, a1)" by blast
    from fetch_twin [OF t f] obtain a1' where
      f': "fat_fetch_next_component a' = Inr (True, a1')" and t1: "slash_twin a1 a1'"
      and s1: "subdir_cluster a1 = 0"
      using s by auto
    from cb True f have m: "search_cb_compare v entry ln a1 = Inr (r, b)"
      by (simp add: fat_search_entry_cb_def)
    have "fat_search_entry_cb v ft entry ln a' = search_cb_compare v entry ln a1'"
      using True pcl f' by (simp add: fat_search_entry_cb_def)
    with compare_twin [OF t1 s1 m] show ?thesis by simp
  qed
qed

lemma walk_twin:
  assumes "slash_twin a a'" and "subdir_cluster a = 0"
    and "fat_walk_directory fuel ctx v ft entry cluster fat_search_entry_cb a
         = Some (Inr (r, ctx1, b))"
  shows "settled_otherwise v b \<or>
         (\<exists>b'. fat_walk_directory fuel ctx v ft entry cluster fat_search_entry_cb a'
                = Some (Inr (r, ctx1, b')) \<and>
               (slash_twin b b' \<or> file_and_not_dir v b b'))"
proof -
  have R: "slash_twin a a' \<and> subdir_cluster a = 0" using assms(1,2) by simp
  from fat_walk_directory_related
    [where R = "\<lambda>a a'. slash_twin a a' \<and> subdir_cluster a = 0"
       and Q = "\<lambda>b b'. slash_twin b b' \<or> file_and_not_dir v b b'"
       and J = "settled_otherwise v" and cb = fat_search_entry_cb and v = v and ft = ft,
     OF search_cb_twin R assms(3)]
  show ?thesis by blast
qed

lemma search_subdirs_twin:
  assumes "slash_twin a a' \<or> file_and_not_dir v a a'"
    and "search_subdirs n fuel v ft w a = Some (Inr fa)"
    and "result fa = Some e" and "\<not> directory (slot_at v e)" and "\<not> not_dir fa"
  shows "\<exists>fa'. search_subdirs n fuel v ft w a' = Some (Inr fa') \<and>
               result fa' = None \<and> not_dir fa'"
  using assms(1,2)
proof (induction n arbitrary: w a a')
  case 0
  then show ?case by simp
next
  case (Suc n)
  show ?case
  proof (cases "subdir_cluster a = 0")
    case True
    with Suc.prems(2) have fa: "fa = a" by simp
    with assms(3) have "\<not> slash_twin a a'" by (simp add: slash_twin_def)
    with Suc.prems(1) have f: "file_and_not_dir v a a'" by simp
    then show ?thesis by (simp add: file_and_not_dir_def)
  next
    case False
    with Suc.prems(1) have t: "slash_twin a a'" by (auto simp: file_and_not_dir_def)
    then have sa: "subdir_cluster a' = subdir_cluster a" by (simp add: slash_twin_def)
    let ?a0 = "a\<lparr>subdir_cluster := 0\<rparr>" and ?a0' = "a'\<lparr>subdir_cluster := 0\<rparr>"
    have t0: "slash_twin ?a0 ?a0'" using t by (simp add: slash_twin_def)
    from Suc.prems(2) False obtain r w1 b where
      wk: "fat_walk_directory fuel w v ft None (subdir_cluster a) fat_search_entry_cb ?a0
           = Some (Inr (r, w1, b))"
      and rest: "search_subdirs n fuel v ft w1 b = Some (Inr fa)"
      by (auto split: option.splits sum.splits)
    from walk_twin [OF t0 _ wk] consider
      (j) "settled_otherwise v b"
      | (g) b' where "fat_walk_directory fuel w v ft None (subdir_cluster a) fat_search_entry_cb ?a0'
                      = Some (Inr (r, w1, b'))" "slash_twin b b' \<or> file_and_not_dir v b b'"
      by auto
    then show ?thesis
    proof cases
      case j
      then have "subdir_cluster b = 0" by (simp add: settled_otherwise_def)
      with rest have "fa = b" by (cases n) auto
      with j assms(3-5) show ?thesis by (auto simp: settled_otherwise_def)
    next
      case g
      from Suc.IH [OF g(2) rest] obtain fa' where
        "search_subdirs n fuel v ft w1 b' = Some (Inr fa')" "result fa' = None" "not_dir fa'"
        by blast
      then show ?thesis using False sa g(1) by simp
    qed
  qed
qed

lemma search_from_root_twin:
  assumes "0 \<notin> set p"
    and "search_from_root fuel v ft root c p = Some (Inr fa)"
    and "result fa = Some e" and "\<not> directory (slot_at v e)" and "\<not> not_dir fa"
  shows "\<exists>fa'. search_from_root fuel v ft root c (p @ [0x2F]) = Some (Inr fa') \<and>
               result fa' = None \<and> not_dir fa'"
proof -
  let ?a = "fat_init_search_ctx p False" and ?a' = "fat_init_search_ctx (p @ [0x2F]) False"
  have t: "slash_twin ?a ?a'" using assms(1)
    by (simp add: slash_twin_def fat_init_search_ctx_def)
  have s: "subdir_cluster ?a = 0" by (simp add: fat_init_search_ctx_def)
  from assms(2) obtain r w1 b where
    wk: "fat_walk_directory fuel zeroed_walk_ctx v ft (Some root) c fat_search_entry_cb ?a
         = Some (Inr (r, w1, b))"
    and rest: "search_subdirs fuel fuel v ft w1 b = Some (Inr fa)"
    by (auto simp: search_from_root_def split: option.splits sum.splits)
  from walk_twin [OF t s wk] consider
    (j) "settled_otherwise v b"
    | (g) b' where "fat_walk_directory fuel zeroed_walk_ctx v ft (Some root) c fat_search_entry_cb ?a'
                    = Some (Inr (r, w1, b'))" "slash_twin b b' \<or> file_and_not_dir v b b'"
    by auto
  then show ?thesis
  proof cases
    case j
    then have "subdir_cluster b = 0" by (simp add: settled_otherwise_def)
    with rest have "fa = b" by (cases fuel) auto
    with j assms(3-5) show ?thesis by (auto simp: settled_otherwise_def)
  next
    case g
    from search_subdirs_twin [OF g(2) rest assms(3-5)] obtain fa' where
      "search_subdirs fuel fuel v ft w1 b' = Some (Inr fa')" "result fa' = None" "not_dir fa'"
      by blast
    then show ?thesis using g(1) by (simp add: search_from_root_def)
  qed
qed

text \<open>One search: \<open>result\<close> and \<open>not_dir\<close> are never both set.\<close>

lemma matched_settles:
  assumes u: "unsettled c" and s: "subdir_cluster c = 0"
    and m: "search_cb_matched e entry c = Inr (r, b)"
  shows "r \<noteq> 0 \<and> settled_once b"
proof (cases "single_comp c \<or> peek (path c) = 0")
  case True
  with m have "r = -1" "b = c\<lparr>result := Some entry\<rparr>"
    by (simp_all add: search_cb_matched_def)
  then show ?thesis using u s by (simp add: unsettled_def settled_once_def)
next
  case False
  with m have sl: "peek (path c) = 0x2F"
    by (cases "peek (path c) = 0x2F") (simp_all add: search_cb_matched_def)
  let ?c1 = "c\<lparr>path := tl (path c)\<rparr>"
  show ?thesis
  proof (cases "peek (tl (path c)) = 0")
    case True
    with m False sl have "r = -1"
      "b = (if directory e then ?c1\<lparr>result := Some entry\<rparr> else ?c1\<lparr>not_dir := True\<rparr>)"
      by (simp_all add: search_cb_matched_def Let_def)
    then show ?thesis using u s by (simp add: unsettled_def settled_once_def)
  next
    case more: False
    show ?thesis
    proof (cases "directory e")
      case True
      with m False sl more have "r = -1"
        "b = ?c1\<lparr>pcl := 0, subdir_cluster := fat_get_first_cluster e\<rparr>"
        by (simp_all add: search_cb_matched_def Let_def)
      then show ?thesis using u by (simp add: unsettled_def settled_once_def)
    next
      case nd: False
      with m False sl more have "r = -1" "b = ?c1"
        by (simp_all add: search_cb_matched_def Let_def)
      then show ?thesis using u by (simp add: unsettled_def settled_once_def)
    qed
  qed
qed

lemma search_cb_settles:
  "\<forall>entry ln a a' r b.
     a' = a \<and> unsettled a \<and> subdir_cluster a = 0 \<longrightarrow>
     fat_search_entry_cb v ft entry ln a = Inr (r, b) \<longrightarrow>
     (r \<noteq> 0 \<and> False) \<or>
     (\<exists>b'. fat_search_entry_cb v ft entry ln a' = Inr (r, b') \<and>
           (if r = 0 then b' = b \<and> unsettled b \<and> subdir_cluster b = 0
            else b' = b \<and> settled_once b))"
proof (intro allI impI)
  fix entry ln a a' r b
  assume h: "a' = a \<and> unsettled a \<and> subdir_cluster a = 0"
    and cb: "fat_search_entry_cb v ft entry ln a = Inr (r, b)"
  have m: "\<And>c. unsettled c \<Longrightarrow> subdir_cluster c = 0 \<Longrightarrow>
             search_cb_matched (slot_at v entry) entry c = Inr (r, b) \<Longrightarrow>
             r \<noteq> 0 \<and> settled_once b"
    by (rule matched_settles)
  have c: "\<And>c. unsettled c \<Longrightarrow> subdir_cluster c = 0 \<Longrightarrow>
             search_cb_compare v entry ln c = Inr (r, b) \<Longrightarrow>
             (if r = 0 then unsettled b \<and> subdir_cluster b = 0 else settled_once b)"
  proof -
    fix c assume u: "unsettled c" and s: "subdir_cluster c = 0"
      and cmp: "search_cb_compare v entry ln c = Inr (r, b)"
    let ?c1 = "c\<lparr>shortname := fat_get_short_name (slot_at v entry)\<rparr>"
    have u1: "unsettled ?c1" and s1: "subdir_cluster ?c1 = 0"
      using u s by (simp_all add: unsettled_def)
    show "if r = 0 then unsettled b \<and> subdir_cluster b = 0 else settled_once b"
    proof (cases ln)
      case (Some l)
      show ?thesis
      proof (cases "strcmp l (c_string (pc c) (pcl c)) \<noteq> 0")
        case True
        with cmp Some have "r = 0" "b = c" by (simp_all add: search_cb_compare_def)
        then show ?thesis using u s by simp
      next
        case False
        with cmp Some have "search_cb_matched (slot_at v entry) entry c = Inr (r, b)"
          by (simp add: search_cb_compare_def)
        from m [OF u s this] show ?thesis by simp
      qed
    next
      case None
      show ?thesis
      proof (cases "stricmp (c_string_of (fat_get_short_name (slot_at v entry)))
                      (c_string (pc c) (pcl c)) \<noteq> 0")
        case True
        with cmp None have "r = 0" "b = ?c1" by (simp_all add: search_cb_compare_def Let_def)
        then show ?thesis using u1 s1 by simp
      next
        case False
        with cmp None have "search_cb_matched (slot_at v entry) entry ?c1 = Inr (r, b)"
          by (simp add: search_cb_compare_def Let_def)
        from m [OF u1 s1 this] show ?thesis by simp
      qed
    qed
  qed
  have "if r = 0 then unsettled b \<and> subdir_cluster b = 0 else settled_once b"
  proof (cases "pcl a = 0")
    case False
    with cb have "search_cb_compare v entry ln a = Inr (r, b)"
      by (simp add: fat_search_entry_cb_def)
    from c [OF _ _ this] h show ?thesis by simp
  next
    case True
    from fetch_component [OF True] obtain a1 where
      f: "fat_fetch_next_component a = Inr (True, a1)"
      and e: "a1 = a\<lparr>path := path a1, pc := pc a1, pcl := pcl a1\<rparr>" by blast
    have "unsettled a1" "subdir_cluster a1 = 0"
      using h by (subst e, simp add: unsettled_def)+
    moreover from cb True f have "search_cb_compare v entry ln a1 = Inr (r, b)"
      by (simp add: fat_search_entry_cb_def)
    ultimately show ?thesis using c by blast
  qed
  then show "(r \<noteq> 0 \<and> False) \<or>
     (\<exists>b'. fat_search_entry_cb v ft entry ln a' = Inr (r, b') \<and>
           (if r = 0 then b' = b \<and> unsettled b \<and> subdir_cluster b = 0
            else b' = b \<and> settled_once b))"
    using h cb by auto
qed

lemma walk_settles:
  assumes "unsettled a" and "subdir_cluster a = 0"
    and "fat_walk_directory fuel ctx v ft entry cluster fat_search_entry_cb a
         = Some (Inr (r, ctx1, b))"
  shows "settled_once b"
proof -
  have R: "a = a \<and> unsettled a \<and> subdir_cluster a = 0" using assms(1,2) by simp
  from fat_walk_directory_related
    [where R = "\<lambda>a a'. a' = a \<and> unsettled a \<and> subdir_cluster a = 0"
       and Q = "\<lambda>b b'. b' = b \<and> settled_once b"
       and J = "\<lambda>b. False" and cb = fat_search_entry_cb and v = v and ft = ft,
     OF search_cb_settles R assms(3)]
  show ?thesis by (auto simp: unsettled_def settled_once_def)
qed

lemma search_subdirs_settles:
  assumes "settled_once a" and "search_subdirs n fuel v ft w a = Some (Inr fa)"
  shows "\<not> (not_dir fa \<and> result fa \<noteq> None)"
  using assms
proof (induction n arbitrary: w a)
  case 0
  then show ?case by simp
next
  case (Suc n)
  show ?case
  proof (cases "subdir_cluster a = 0")
    case True
    with Suc.prems show ?thesis by (simp add: settled_once_def)
  next
    case False
    with Suc.prems(1) have u: "unsettled (a\<lparr>subdir_cluster := 0\<rparr>)"
      by (auto simp: settled_once_def unsettled_def)
    from Suc.prems(2) False obtain r w1 b where
      wk: "fat_walk_directory fuel w v ft None (subdir_cluster a) fat_search_entry_cb
             (a\<lparr>subdir_cluster := 0\<rparr>) = Some (Inr (r, w1, b))"
      and rest: "search_subdirs n fuel v ft w1 b = Some (Inr fa)"
      by (auto split: option.splits sum.splits)
    from walk_settles [OF u _ wk] have "settled_once b" by simp
    from Suc.IH [OF this rest] show ?thesis .
  qed
qed

lemma search_from_root_settles:
  assumes "search_from_root fuel v ft root c p = Some (Inr fa)"
  shows "\<not> (not_dir fa \<and> result fa \<noteq> None)"
proof -
  let ?a = "fat_init_search_ctx p False"
  have u: "unsettled ?a" and s: "subdir_cluster ?a = 0"
    by (simp_all add: unsettled_def fat_init_search_ctx_def)
  from assms obtain r w1 b where
    wk: "fat_walk_directory fuel zeroed_walk_ctx v ft (Some root) c fat_search_entry_cb ?a
         = Some (Inr (r, w1, b))"
    and rest: "search_subdirs fuel fuel v ft w1 b = Some (Inr fa)"
    by (auto simp: search_from_root_def split: option.splits sum.splits)
  from search_subdirs_settles [OF walk_settles [OF u s wk] rest] show ?thesis .
qed

lemma search_unfold:
  assumes "(if ftq = fat_unknown then fat_get_type (hdr v) else Inr ftq) = Inr ft"
    and "peek p = 0x2F" and "fat_get_rootdir (hdr v) ft = Inr (root, c)"
    and "peek (tl p) \<noteq> 0"
  shows "fat_search_entry fuel v ftq p erra =
           (case search_from_root fuel v ft root c (tl p) of
              None \<Rightarrow> None
            | Some (Inl q) \<Rightarrow> Some (Inl q)
            | Some (Inr ctx) \<Rightarrow> Some (Inr (result ctx, search_errno ctx)))"
  using assms unfolding fat_search_entry_def by simp

lemma search_returned:
  assumes "fat_search_entry fuel v ftq p erra = Some (Inr (res, err))"
    and "peek (tl p) \<noteq> 0"
  shows "\<exists>ft root c ctx.
           (if ftq = fat_unknown then fat_get_type (hdr v) else Inr ftq) = Inr ft \<and>
           peek p = 0x2F \<and> fat_get_rootdir (hdr v) ft = Inr (root, c) \<and>
           search_from_root fuel v ft root c (tl p) = Some (Inr ctx) \<and>
           res = result ctx \<and> err = search_errno ctx"
proof -
  from assms(1) obtain ft where
    ft: "(if ftq = fat_unknown then fat_get_type (hdr v) else Inr ftq) = Inr ft"
    unfolding fat_search_entry_def
    by (cases "if ftq = fat_unknown then fat_get_type (hdr v) else Inr ftq") auto
  from assms(1) ft have pk: "peek p = 0x2F"
    unfolding fat_search_entry_def by (cases "peek p = 0x2F") auto
  from assms(1) ft pk obtain root c where rd: "fat_get_rootdir (hdr v) ft = Inr (root, c)"
    unfolding fat_search_entry_def by (cases "fat_get_rootdir (hdr v) ft") auto
  from assms(1) obtain ctx where
    "search_from_root fuel v ft root c (tl p) = Some (Inr ctx)"
    "res = result ctx" "err = search_errno ctx"
    unfolding search_unfold [OF ft pk rd assms(2)]
    by (auto split: option.splits sum.splits)
  with ft pk rd show ?thesis by blast
qed

text \<open>
  Claim C2. On the path \<open>/\<close> the search returns the pointer \<open>fat_get_rootdir\<close> gives (and
  leaves \<open>*err\<close> as it was). On any other path: an entry is only ever returned together
  with error number 0; when the entry returned for a path is not a directory, the search
  for the same path with a \<open>/\<close> appended returns null with \<open>-20\<close> (\<open>-ENOTDIR\<close>); and the
  error number is \<open>-20\<close> when \<open>not_dir\<close> is set, \<open>-2\<close> (\<open>-ENOENT\<close>) when it is not and
  there is no result, 0 otherwise.
\<close>

theorem fat_search_entry_paths:
  "(\<forall>ft root c.
      (if ftq = fat_unknown then fat_get_type (hdr v) else Inr ftq) = Inr ft \<and>
      fat_get_rootdir (hdr v) ft = Inr (root, c) \<longrightarrow>
      fat_search_entry fuel v ftq [0x2F] erra = Some (Inr (Some root, erra))) \<and>
   (\<forall>e err.
      fat_search_entry fuel v ftq p erra = Some (Inr (Some e, err)) \<and> peek (tl p) \<noteq> 0 \<longrightarrow>
      err = 0) \<and>
   (\<forall>e err.
      fat_search_entry fuel v ftq p erra = Some (Inr (Some e, err)) \<and> peek (tl p) \<noteq> 0 \<and>
      \<not> directory (slot_at v e) \<and> 0 \<notin> set p \<longrightarrow>
      fat_search_entry fuel v ftq (p @ [0x2F]) errb = Some (Inr (None, -20))) \<and>
   (\<forall>res err.
      fat_search_entry fuel v ftq p erra = Some (Inr (res, err)) \<and> peek (tl p) \<noteq> 0 \<longrightarrow>
      (\<exists>ft root c ctx.
         search_from_root fuel v ft root c (tl p) = Some (Inr ctx) \<and> res = result ctx \<and>
         err = (if not_dir ctx then -20 else if result ctx = None then -2 else 0)))"
proof (intro conjI allI impI)
  fix ft root c
  assume "(if ftq = fat_unknown then fat_get_type (hdr v) else Inr ftq) = Inr ft \<and>
          fat_get_rootdir (hdr v) ft = Inr (root, c)"
  then show "fat_search_entry fuel v ftq [0x2F] erra = Some (Inr (Some root, erra))"
    unfolding fat_search_entry_def by (simp add: peek_def)
next
  fix e err
  assume a: "fat_search_entry fuel v ftq p erra = Some (Inr (Some e, err)) \<and> peek (tl p) \<noteq> 0"
  then obtain ft root c ctx where
    s: "search_from_root fuel v ft root c (tl p) = Some (Inr ctx)"
    and r: "Some e = result ctx" and er: "err = search_errno ctx"
    using search_returned [of fuel v ftq p erra "Some e" err] by blast
  from search_from_root_settles [OF s] r [symmetric] have "\<not> not_dir ctx" by auto
  with r [symmetric] er show "err = 0" by (simp add: search_errno_def)
next
  fix e err
  assume a: "fat_search_entry fuel v ftq p erra = Some (Inr (Some e, err)) \<and> peek (tl p) \<noteq> 0 \<and>
      \<not> directory (slot_at v e) \<and> 0 \<notin> set p"
  then have nd: "\<not> directory (slot_at v e)" and nz: "0 \<notin> set p" and pt: "peek (tl p) \<noteq> 0"
    by simp_all
  from a obtain ft root c ctx where
    ft: "(if ftq = fat_unknown then fat_get_type (hdr v) else Inr ftq) = Inr ft"
    and pk: "peek p = 0x2F" and rd: "fat_get_rootdir (hdr v) ft = Inr (root, c)"
    and s: "search_from_root fuel v ft root c (tl p) = Some (Inr ctx)"
    and r: "Some e = result ctx" and er: "err = search_errno ctx"
    using search_returned [of fuel v ftq p erra "Some e" err] by blast
  from search_from_root_settles [OF s] r [symmetric] have nnd: "\<not> not_dir ctx" by auto
  from pk have pne: "p \<noteq> []" by (auto simp: peek_def)
  then have tl: "tl (p @ [0x2F]) = tl p @ [0x2F]" by simp
  have nzt: "0 \<notin> set (tl p)" using nz pne by (cases p) auto
  from search_from_root_twin [OF nzt s r [symmetric] nd nnd] obtain fa' where
    s': "search_from_root fuel v ft root c (tl p @ [0x2F]) = Some (Inr fa')"
    and r': "result fa' = None" and d': "not_dir fa'" by blast
  have pk': "peek (p @ [0x2F]) = 0x2F" using pk pne by (cases p) (auto simp: peek_def)
  have pt': "peek (tl (p @ [0x2F])) \<noteq> 0"
    unfolding tl using nzt by (cases "tl p") (auto simp: peek_def)
  show "fat_search_entry fuel v ftq (p @ [0x2F]) errb = Some (Inr (None, -20))"
    unfolding search_unfold [OF ft pk' rd pt'] tl s' using r' d'
    by (simp add: search_errno_def)
next
  fix res err
  assume "fat_search_entry fuel v ftq p erra = Some (Inr (res, err)) \<and> peek (tl p) \<noteq> 0"
  then show "\<exists>ft root c ctx.
         search_from_root fuel v ft root c (tl p) = Some (Inr ctx) \<and> res = result ctx \<and>
         err = (if not_dir ctx then -20 else if result ctx = None then -2 else 0)"
    using search_returned [of fuel v ftq p erra res err] unfolding search_errno_def by blast
qed

theorem fat_search_entry_paths_witness:
  "fat_search_entry 5 vol16 fat_unknown [0x2F] 7 = Some (Inr (Some 10752, 7)) \<and>
   fat_search_entry 5 vol16 fat_unknown (ascii ''/SUB/DATA.BIN'') 7 = Some (Inr (Some 11264, 0)) \<and>
   \<not> directory (slot_at vol16 11264) \<and>
   fat_search_entry 5 vol16 fat_unknown (ascii ''/SUB/DATA.BIN'' @ [0x2F]) 7
     = Some (Inr (None, -20))"
proof -
  note t = fat_search_entry_paths [where v = vol16 and ftq = fat_unknown and fuel = 5
      and p = "ascii ''/SUB/DATA.BIN''" and erra = 7 and errb = 7]
  have c: "(if fat_unknown = fat_unknown then fat_get_type (hdr vol16) else Inr fat_unknown)
             = Inr fat16_type \<and>
           fat_get_rootdir (hdr vol16) fat16_type = Inr (10752, 0)"
    by code_simp
  have f: "fat_search_entry 5 vol16 fat_unknown (ascii ''/SUB/DATA.BIN'') 7
             = Some (Inr (Some 11264, 0))"
    and g: "peek (tl (ascii ''/SUB/DATA.BIN'')) \<noteq> 0"
    and d: "\<not> directory (slot_at vol16 11264)"
    and z: "0 \<notin> set (ascii ''/SUB/DATA.BIN'')"
    by code_simp+
  from t c have r: "fat_search_entry 5 vol16 fat_unknown [0x2F] 7 = Some (Inr (Some 10752, 7))"
    by blast
  from t f g d z have
    s: "fat_search_entry 5 vol16 fat_unknown (ascii ''/SUB/DATA.BIN'' @ [0x2F]) 7
          = Some (Inr (None, -20))"
    by blast
  show ?thesis using r f d s by blast
qed

text \<open>
  More lookups on the example volume: a directory with and without the trailing \<open>/\<close>, a
  name that is not there, and a file used as a directory in the middle of a path (which is
  reported as not found).
\<close>

lemma lookup_directory:
  "fat_search_entry 5 vol16 fat_unknown (ascii ''/SUB'') 0 = Some (Inr (Some 10880, 0)) \<and>
   fat_search_entry 5 vol16 fat_unknown (ascii ''/SUB/'') 0 = Some (Inr (Some 10880, 0))"
  by code_simp

lemma lookup_not_found:
  "fat_search_entry 5 vol16 fat_unknown (ascii ''/NOTHING'') 0 = Some (Inr (None, -2)) \<and>
   fat_search_entry 5 vol16 fat_unknown (ascii ''/HELLO.TXT/X'') 0 = Some (Inr (None, -2))"
  by code_simp

end
